theory Spec2Isabelle
  imports Main "HOL-Library.Sublist"
begin

section \<open>Regular expressions as the source uses them\<close>

text \<open>
  The validation code of \<^verbatim>\<open>06-objects-tasks.js\<close> is written with three regular
  expression literals and one \<^verbatim>\<open>new RegExp(selector)\<close>. They are embedded as
  values of a small datatype and decided by derivatives. Strings are lists of
  \<^typ>\<open>char\<close>, read as the code units U+0000 .. U+00FF.

  Only the boolean outcome of \<^verbatim>\<open>test\<close>/\<^verbatim>\<open>match\<close> is used by the source, so a
  lazy star \<^verbatim>\<open>*?\<close> is a star and a capture group is its body.
\<close>

datatype regex =
    Fail
  | Empty
  | Chr char
  | Whitespace
  | Alt regex regex
  | Cat regex regex
  | Rep regex

text \<open>The class \<^verbatim>\<open>\s\<close> on U+0000 .. U+00FF: TAB, LF, VT, FF, CR, SPACE and NBSP.\<close>

definition is_space :: "char \<Rightarrow> bool" where
  "is_space c = (of_char c \<in> {9, 10, 11, 12, 13, 32, 160 :: nat})"

definition Opt :: "regex \<Rightarrow> regex" where
  "Opt r = Alt r Empty"

fun Lit :: "string \<Rightarrow> regex" where
  "Lit [] = Empty"
| "Lit (c # cs) = Cat (Chr c) (Lit cs)"

fun nullable :: "regex \<Rightarrow> bool" where
  "nullable Fail = False"
| "nullable Empty = True"
| "nullable (Chr c) = False"
| "nullable Whitespace = False"
| "nullable (Alt r s) = (nullable r \<or> nullable s)"
| "nullable (Cat r s) = (nullable r \<and> nullable s)"
| "nullable (Rep r) = True"

fun deriv :: "char \<Rightarrow> regex \<Rightarrow> regex" where
  "deriv a Fail = Fail"
| "deriv a Empty = Fail"
| "deriv a (Chr c) = (if a = c then Empty else Fail)"
| "deriv a Whitespace = (if is_space a then Empty else Fail)"
| "deriv a (Alt r s) = Alt (deriv a r) (deriv a s)"
| "deriv a (Cat r s) =
     (if nullable r then Alt (Cat (deriv a r) s) (deriv a s) else Cat (deriv a r) s)"
| "deriv a (Rep r) = Cat (deriv a r) (Rep r)"

fun derivs :: "string \<Rightarrow> regex \<Rightarrow> regex" where
  "derivs [] r = r"
| "derivs (a # w) r = derivs w (deriv a r)"

text \<open>\<^verbatim>\<open>/^...$/.test(s)\<close>: the whole of \<open>s\<close> matches.\<close>

definition test_anchored :: "regex \<Rightarrow> string \<Rightarrow> bool" where
  "test_anchored r s = nullable (derivs s r)"

text \<open>Some prefix of \<open>s\<close> matches.\<close>

fun match_here :: "regex \<Rightarrow> string \<Rightarrow> bool" where
  "match_here r [] = nullable r"
| "match_here r (a # w) = (nullable r \<or> match_here (deriv a r) w)"

text \<open>\<^verbatim>\<open>/.../.test(s)\<close> and \<^verbatim>\<open>s.match(/.../)\<close> without anchors: a match starts
  somewhere in \<open>s\<close>.\<close>

fun test :: "regex \<Rightarrow> string \<Rightarrow> bool" where
  "test r [] = nullable r"
| "test r (a # w) = (match_here r (a # w) \<or> test r w)"

text \<open>
  \<^verbatim>\<open>new RegExp(`${selector}`)\<close>: every call site passes one of the six tags
  \<^verbatim>\<open>element\<close>, \<^verbatim>\<open>id\<close>, \<^verbatim>\<open>class\<close>, \<^verbatim>\<open>attr\<close>, \<^verbatim>\<open>pseudo-class\<close>, \<^verbatim>\<open>pseudo-element\<close>,
  none of which holds a metacharacter (a hyphen outside a class is literal), so the
  pattern is the literal string.
\<close>

definition RegExp :: "string \<Rightarrow> regex" where
  "RegExp src = Lit src"

section \<open>ErrorCreator\<close>

text \<open>Each method throws \<^verbatim>\<open>new Error(message)\<close>; the thrown value is the model's error.\<close>

datatype error = Error string

definition combinatorError :: "string \<Rightarrow> error" where
  "combinatorError allowed =
     Error (''Combinator parsing error! Only '' @ allowed @ '' combinators are allowed to use'')"

definition noDuplicateSelectors :: error where
  "noDuplicateSelectors =
     Error ''Element, id and pseudo-element should not occur more then one time inside the selector''"

definition selectorsOrderError :: error where
  "selectorsOrderError =
     Error ''Selector parts should be arranged in the following order: element, id, class, attribute, pseudo-class, pseudo-element''"

section \<open>CssSelectorCreator\<close>

text \<open>
  The object's fields. The third field \<^verbatim>\<open>this.throw\<close> is an \<^verbatim>\<open>ErrorCreator\<close>, which has
  no state. A method either returns \<^verbatim>\<open>this\<close> (\<open>Inr\<close> with the object's new fields) or
  throws (\<open>Inl\<close> with the error and the fields as the throw leaves them: JavaScript does
  not undo the assignments made before a throw).
\<close>

record CssSelectorCreator =
  selector :: string
  creationOrder :: string

type_synonym outcome = "(error \<times> CssSelectorCreator) + CssSelectorCreator"

definition constructor :: CssSelectorCreator where
  "constructor = \<lparr>selector = '''', creationOrder = ''''\<rparr>"

definition stringify :: "CssSelectorCreator \<Rightarrow> string" where
  "stringify this = selector this"

text \<open>\<^verbatim>\<open>/^(element)?(id)?(class)*?(attr)*?(pseudo-class)*?(pseudo-element)?$/g\<close>. The
  literal is evaluated anew at every call, so \<^verbatim>\<open>lastIndex\<close> is 0 and the \<^verbatim>\<open>g\<close> flag
  has no effect.\<close>

definition validOrderPattern :: regex where
  "validOrderPattern =
     Cat (Opt (Lit ''element''))
    (Cat (Opt (Lit ''id''))
    (Cat (Rep (Lit ''class''))
    (Cat (Rep (Lit ''attr''))
    (Cat (Rep (Lit ''pseudo-class''))
         (Opt (Lit ''pseudo-element''))))))"

text \<open>\<^verbatim>\<open>/element|id|pseudo-element/\<close>\<close>

definition singletonPattern :: regex where
  "singletonPattern = Alt (Lit ''element'') (Alt (Lit ''id'') (Lit ''pseudo-element''))"

definition checkSelectorStructure :: "string \<Rightarrow> CssSelectorCreator \<Rightarrow> outcome" where
  "checkSelectorStructure sel this =
     (if test singletonPattern sel \<and> test (RegExp sel) (creationOrder this)
      then Inl (noDuplicateSelectors, this)
      else
        let this1 = this\<lparr>creationOrder := creationOrder this @ sel\<rparr> in
        if \<not> test_anchored validOrderPattern (creationOrder this1)
        then Inl (selectorsOrderError, this1)
        else Inr this1)"

definition element :: "string \<Rightarrow> CssSelectorCreator \<Rightarrow> outcome" where
  "element v this =
     (case checkSelectorStructure ''element'' this of
        Inl thrown \<Rightarrow> Inl thrown
      | Inr this1 \<Rightarrow> Inr (this1\<lparr>selector := selector this1 @ v\<rparr>))"

definition id_sel :: "string \<Rightarrow> CssSelectorCreator \<Rightarrow> outcome" where
  "id_sel v this =
     (case checkSelectorStructure ''id'' this of
        Inl thrown \<Rightarrow> Inl thrown
      | Inr this1 \<Rightarrow> Inr (this1\<lparr>selector := selector this1 @ ''#'' @ v\<rparr>))"

definition class_sel :: "string \<Rightarrow> CssSelectorCreator \<Rightarrow> outcome" where
  "class_sel v this =
     (case checkSelectorStructure ''class'' this of
        Inl thrown \<Rightarrow> Inl thrown
      | Inr this1 \<Rightarrow> Inr (this1\<lparr>selector := selector this1 @ ''.'' @ v\<rparr>))"

definition attr :: "string \<Rightarrow> CssSelectorCreator \<Rightarrow> outcome" where
  "attr v this =
     (case checkSelectorStructure ''attr'' this of
        Inl thrown \<Rightarrow> Inl thrown
      | Inr this1 \<Rightarrow> Inr (this1\<lparr>selector := selector this1 @ ''['' @ v @ '']''\<rparr>))"

definition pseudoClass :: "string \<Rightarrow> CssSelectorCreator \<Rightarrow> outcome" where
  "pseudoClass v this =
     (case checkSelectorStructure ''pseudo-class'' this of
        Inl thrown \<Rightarrow> Inl thrown
      | Inr this1 \<Rightarrow> Inr (this1\<lparr>selector := selector this1 @ '':'' @ v\<rparr>))"

definition pseudoElement :: "string \<Rightarrow> CssSelectorCreator \<Rightarrow> outcome" where
  "pseudoElement v this =
     (case checkSelectorStructure ''pseudo-element'' this of
        Inl thrown \<Rightarrow> Inl thrown
      | Inr this1 \<Rightarrow> Inr (this1\<lparr>selector := selector this1 @ ''::'' @ v\<rparr>))"

text \<open>\<^verbatim>\<open>/\s|\+|~|>/\<close>\<close>

definition allowedCombinators :: regex where
  "allowedCombinators = Alt Whitespace (Alt (Chr CHR ''+'') (Alt (Chr CHR ''~'') (Chr CHR ''>'')))"

text \<open>
  \<^verbatim>\<open>combine(selector1, combinator, selector2)\<close>. The two operands are read through
  their \<^verbatim>\<open>stringify()\<close>, which changes nothing, so they enter as the operands' fields.
  The argument of \<^verbatim>\<open>combinatorError\<close> is the source's \<^verbatim>\<open>'" ", +, ~, >'\<close>.
\<close>

definition combine ::
  "CssSelectorCreator \<Rightarrow> string \<Rightarrow> CssSelectorCreator \<Rightarrow> CssSelectorCreator \<Rightarrow> outcome" where
  "combine selector1 combinator selector2 this =
     (if \<not> test allowedCombinators combinator
      then Inl (combinatorError ([CHR 0x22, CHR '' '', CHR 0x22] @ '', +, ~, >''), this)
      else Inr (this\<lparr>selector := selector this
                  @ stringify selector1 @ '' '' @ combinator @ '' '' @ stringify selector2\<rparr>))"


section \<open>Calls and call sequences\<close>

text \<open>The six part kinds, each with the tag its method passes to
  \<^verbatim>\<open>checkSelectorStructure\<close>.\<close>

datatype kind = Element | Id | Class | Attr | PseudoClass | PseudoElement

fun tag :: "kind \<Rightarrow> string" where
  "tag Element = ''element''"
| "tag Id = ''id''"
| "tag Class = ''class''"
| "tag Attr = ''attr''"
| "tag PseudoClass = ''pseudo-class''"
| "tag PseudoElement = ''pseudo-element''"

fun part :: "kind \<Rightarrow> string \<Rightarrow> CssSelectorCreator \<Rightarrow> outcome" where
  "part Element = element"
| "part Id = id_sel"
| "part Class = class_sel"
| "part Attr = attr"
| "part PseudoClass = pseudoClass"
| "part PseudoElement = pseudoElement"

text \<open>A call on a builder: one of the six part methods with its value, or \<^verbatim>\<open>combine\<close>
  with its two operands (of type \<open>'a\<close>: the operands' fields, or references to them).\<close>

datatype 'a call = Part kind string | Combine 'a string 'a

fun exec :: "CssSelectorCreator call \<Rightarrow> CssSelectorCreator \<Rightarrow> outcome" where
  "exec (Part k v) this = part k v this"
| "exec (Combine selector1 combinator selector2) this = combine selector1 combinator selector2 this"

text \<open>The object's fields once the call is over, whether it returned or threw.\<close>

fun left_by :: "outcome \<Rightarrow> CssSelectorCreator" where
  "left_by (Inl (thrown, this)) = this"
| "left_by (Inr this) = this"

text \<open>A fluent chain \<^verbatim>\<open>b.m1(..).m2(..)\<close>: the first throw ends it.\<close>

fun chain :: "CssSelectorCreator call list \<Rightarrow> CssSelectorCreator \<Rightarrow> outcome" where
  "chain [] this = Inr this"
| "chain (c # cs) this =
     (case exec c this of Inl thrown \<Rightarrow> Inl thrown | Inr this1 \<Rightarrow> chain cs this1)"

text \<open>Separate statements on one builder, by a caller that catches every throw and goes
  on: the object after all of them.\<close>

fun after :: "CssSelectorCreator call list \<Rightarrow> CssSelectorCreator \<Rightarrow> CssSelectorCreator" where
  "after [] this = this"
| "after (c # cs) this = after cs (left_by (exec c this))"

section \<open>Objects in a store, and the facade\<close>

text \<open>
  Builders are objects with identity. The store is the list of the objects allocated so
  far, a reference is an index into it, and \<^verbatim>\<open>new\<close> allocates at the end. A reference
  that is not allocated does not exist in JavaScript: such a call has no result (\<open>None\<close>).
\<close>

type_synonym ref = nat
type_synonym heap = "CssSelectorCreator list"

definition deref :: "heap \<Rightarrow> ref \<Rightarrow> CssSelectorCreator option" where
  "deref h r = (if r < length h then Some (h ! r) else None)"

definition new_CssSelectorCreator :: "heap \<Rightarrow> ref \<times> heap" where
  "new_CssSelectorCreator h = (length h, h @ [constructor])"

text \<open>A method runs on the object \<^verbatim>\<open>this\<close> refers to, leaves its fields there, and
  returns \<^verbatim>\<open>this\<close> or throws.\<close>

definition invoke ::
  "(CssSelectorCreator \<Rightarrow> outcome) \<Rightarrow> ref \<Rightarrow> heap \<Rightarrow> ((error + ref) \<times> heap) option" where
  "invoke m this h =
     (case deref h this of
        None \<Rightarrow> None
      | Some obj \<Rightarrow>
          Some (case m obj of
                  Inl (thrown, obj1) \<Rightarrow> (Inl thrown, h[this := obj1])
                | Inr obj1 \<Rightarrow> (Inr this, h[this := obj1])))"

fun on_ref :: "ref call \<Rightarrow> ref \<Rightarrow> heap \<Rightarrow> ((error + ref) \<times> heap) option" where
  "on_ref (Part k v) this h = invoke (part k v) this h"
| "on_ref (Combine selector1 combinator selector2) this h =
     (case (deref h selector1, deref h selector2) of
        (Some a, Some b) \<Rightarrow> invoke (combine a combinator b) this h
      | _ \<Rightarrow> None)"

fun heap_chain :: "ref call list \<Rightarrow> ref \<Rightarrow> heap \<Rightarrow> ((error + ref) \<times> heap) option" where
  "heap_chain [] this h = Some (Inr this, h)"
| "heap_chain (c # cs) this h =
     (case on_ref c this h of
        None \<Rightarrow> None
      | Some (Inl thrown, h1) \<Rightarrow> Some (Inl thrown, h1)
      | Some (Inr this1, h1) \<Rightarrow> heap_chain cs this1 h1)"

fun heap_after :: "ref call list \<Rightarrow> ref \<Rightarrow> heap \<Rightarrow> heap option" where
  "heap_after [] this h = Some h"
| "heap_after (c # cs) this h =
     (case on_ref c this h of None \<Rightarrow> None | Some (res, h1) \<Rightarrow> heap_after cs this h1)"

text \<open>The seven methods of the object literal \<^verbatim>\<open>cssSelectorBuilder\<close>, each
  \<^verbatim>\<open>return new CssSelectorCreator().m(...)\<close>. The literal has no field.\<close>

definition cssSelectorBuilder_element :: "string \<Rightarrow> heap \<Rightarrow> ((error + ref) \<times> heap) option" where
  "cssSelectorBuilder_element v h =
     (case new_CssSelectorCreator h of (this, h1) \<Rightarrow> on_ref (Part Element v) this h1)"

definition cssSelectorBuilder_id :: "string \<Rightarrow> heap \<Rightarrow> ((error + ref) \<times> heap) option" where
  "cssSelectorBuilder_id v h =
     (case new_CssSelectorCreator h of (this, h1) \<Rightarrow> on_ref (Part Id v) this h1)"

definition cssSelectorBuilder_class :: "string \<Rightarrow> heap \<Rightarrow> ((error + ref) \<times> heap) option" where
  "cssSelectorBuilder_class v h =
     (case new_CssSelectorCreator h of (this, h1) \<Rightarrow> on_ref (Part Class v) this h1)"

definition cssSelectorBuilder_attr :: "string \<Rightarrow> heap \<Rightarrow> ((error + ref) \<times> heap) option" where
  "cssSelectorBuilder_attr v h =
     (case new_CssSelectorCreator h of (this, h1) \<Rightarrow> on_ref (Part Attr v) this h1)"

definition cssSelectorBuilder_pseudoClass :: "string \<Rightarrow> heap \<Rightarrow> ((error + ref) \<times> heap) option" where
  "cssSelectorBuilder_pseudoClass v h =
     (case new_CssSelectorCreator h of (this, h1) \<Rightarrow> on_ref (Part PseudoClass v) this h1)"

definition cssSelectorBuilder_pseudoElement :: "string \<Rightarrow> heap \<Rightarrow> ((error + ref) \<times> heap) option" where
  "cssSelectorBuilder_pseudoElement v h =
     (case new_CssSelectorCreator h of (this, h1) \<Rightarrow> on_ref (Part PseudoElement v) this h1)"

definition cssSelectorBuilder_combine ::
  "ref \<Rightarrow> string \<Rightarrow> ref \<Rightarrow> heap \<Rightarrow> ((error + ref) \<times> heap) option" where
  "cssSelectorBuilder_combine selector1 combinator selector2 h =
     (case new_CssSelectorCreator h of
        (this, h1) \<Rightarrow> on_ref (Combine selector1 combinator selector2) this h1)"

fun cssSelectorBuilder :: "ref call \<Rightarrow> heap \<Rightarrow> ((error + ref) \<times> heap) option" where
  "cssSelectorBuilder (Part Element v) = cssSelectorBuilder_element v"
| "cssSelectorBuilder (Part Id v) = cssSelectorBuilder_id v"
| "cssSelectorBuilder (Part Class v) = cssSelectorBuilder_class v"
| "cssSelectorBuilder (Part Attr v) = cssSelectorBuilder_attr v"
| "cssSelectorBuilder (Part PseudoClass v) = cssSelectorBuilder_pseudoClass v"
| "cssSelectorBuilder (Part PseudoElement v) = cssSelectorBuilder_pseudoElement v"
| "cssSelectorBuilder (Combine selector1 combinator selector2) =
     cssSelectorBuilder_combine selector1 combinator selector2"

text \<open>A selector expression \<^verbatim>\<open>cssSelectorBuilder.m1(..).m2(..)...\<close>: the first call goes
  to the facade, the others to the builder it returns.\<close>

fun build :: "ref call list \<Rightarrow> heap \<Rightarrow> ((error + ref) \<times> heap) option" where
  "build [] h = None"
| "build (c # cs) h =
     (case cssSelectorBuilder c h of
        None \<Rightarrow> None
      | Some (Inl thrown, h1) \<Rightarrow> Some (Inl thrown, h1)
      | Some (Inr this, h1) \<Rightarrow> heap_chain cs this h1)"

text \<open>
  What a client does with the facade and the builders it has, one statement after the
  other: a call on the facade, or a method call on a builder it holds a reference to.
\<close>

datatype step = Facade "ref call" | Method ref "ref call"

fun perform :: "step \<Rightarrow> heap \<Rightarrow> ((error + ref) \<times> heap) option" where
  "perform (Facade c) h = cssSelectorBuilder c h"
| "perform (Method this c) h = on_ref c this h"

fun run :: "step list \<Rightarrow> heap \<Rightarrow> heap option" where
  "run [] h = Some h"
| "run (s # ss) h = (case perform s h of None \<Rightarrow> None | Some (res, h1) \<Rightarrow> run ss h1)"

text \<open>The references a statement uses are allocated, in a store of \<open>n\<close> objects.\<close>

fun allocated :: "ref call \<Rightarrow> nat \<Rightarrow> bool" where
  "allocated (Part k v) n = True"
| "allocated (Combine selector1 combinator selector2) n = (selector1 < n \<and> selector2 < n)"

fun well_formed :: "step list \<Rightarrow> nat \<Rightarrow> bool" where
  "well_formed [] n = True"
| "well_formed (Facade c # ss) n = (allocated c n \<and> well_formed ss (Suc n))"
| "well_formed (Method this c # ss) n = (this < n \<and> allocated c n \<and> well_formed ss n)"

text \<open>The statement is a method call on the builder \<open>b\<close>.\<close>

fun on_builder :: "ref \<Rightarrow> step \<Rightarrow> bool" where
  "on_builder b (Facade c) = False"
| "on_builder b (Method this c) = (this = b)"

section \<open>getJSON and fromJSON\<close>

text \<open>
  The values of JavaScript that \<^verbatim>\<open>JSON.stringify\<close> serializes as they are: \<^verbatim>\<open>null\<close>,
  booleans, numbers (the integers here), strings, arrays and objects. An array or
  object carries its prototype and its own enumerable properties, in enumeration order;
  a property that holds a function or \<^verbatim>\<open>undefined\<close>, and an object with a \<^verbatim>\<open>toJSON\<close>
  method, are not among these values. A prototype is an object or \<^verbatim>\<open>null\<close>: the built-in
  ones are named, any other object is \<open>Proto n\<close>.
\<close>

datatype proto =
    Null_proto
  | Object_prototype
  | Array_prototype
  | Boolean_prototype
  | Number_prototype
  | String_prototype
  | Proto nat

datatype jsvalue =
    JNull
  | JBool bool
  | JNum int
  | JStr string
  | JArray proto "jsvalue list"
  | JObject proto "(string \<times> jsvalue) list"

text \<open>A JSON text, given by the document it spells: the claims about the two helpers
  depend on what a text denotes, not on its characters.\<close>

datatype json_text =
    TNull
  | TBool bool
  | TNum int
  | TStr string
  | TArray "json_text list"
  | TObject "(string \<times> json_text) list"

datatype js_error = TypeError

text \<open>Modelled from the spec: \<^verbatim>\<open>JSON.stringify\<close> is a built-in of the JavaScript runtime,
  not code of the repository; the specification calls it \<open>serialize(value) -> text\<close>,
  the canonical textual form of a structured value. As the language standard documents
  it, the text spells the value's own properties and elements; prototypes are not
  written.\<close>

fun JSON_stringify :: "jsvalue \<Rightarrow> json_text" where
  "JSON_stringify JNull = TNull"
| "JSON_stringify (JBool b) = TBool b"
| "JSON_stringify (JNum n) = TNum n"
| "JSON_stringify (JStr s) = TStr s"
| "JSON_stringify (JArray p xs) = TArray (map JSON_stringify xs)"
| "JSON_stringify (JObject p kvs) = TObject (map (map_prod id JSON_stringify) kvs)"

text \<open>Modelled from the spec: \<^verbatim>\<open>JSON.parse\<close> is a built-in of the JavaScript runtime, not
  code of the repository; the specification calls it the way back from the text. As the
  language standard documents it, every array of the text becomes a new array with the
  prototype \<^verbatim>\<open>Array.prototype\<close>, every object a new object with the prototype
  \<^verbatim>\<open>Object.prototype\<close>.\<close>

fun JSON_parse :: "json_text \<Rightarrow> jsvalue" where
  "JSON_parse TNull = JNull"
| "JSON_parse (TBool b) = JBool b"
| "JSON_parse (TNum n) = JNum n"
| "JSON_parse (TStr s) = JStr s"
| "JSON_parse (TArray ts) = JArray Array_prototype (map JSON_parse ts)"
| "JSON_parse (TObject kts) = JObject Object_prototype (map (map_prod id JSON_parse) kts)"

text \<open>Modelled from the spec: \<^verbatim>\<open>Object.setPrototypeOf\<close> is a built-in of the JavaScript
  runtime, not code of the repository; the specification speaks of reattaching the
  target shape to the parsed result. As the language standard documents it:
  \<^verbatim>\<open>Object.setPrototypeOf(O, proto)\<close> throws a \<^verbatim>\<open>TypeError\<close> when \<open>O\<close> is \<^verbatim>\<open>null\<close>, returns
  \<open>O\<close> as it is when \<open>O\<close> is a boolean, a number or a string, and otherwise sets the
  prototype of the object \<open>O\<close> and returns it. The result is \<open>O\<close> after the call.\<close>

fun Object_setPrototypeOf :: "jsvalue \<Rightarrow> proto \<Rightarrow> js_error + jsvalue" where
  "Object_setPrototypeOf JNull p = Inl TypeError"
| "Object_setPrototypeOf (JBool b) p = Inr (JBool b)"
| "Object_setPrototypeOf (JNum n) p = Inr (JNum n)"
| "Object_setPrototypeOf (JStr s) p = Inr (JStr s)"
| "Object_setPrototypeOf (JArray q xs) p = Inr (JArray p xs)"
| "Object_setPrototypeOf (JObject q kvs) p = Inr (JObject p kvs)"

text \<open>Modelled from the spec: \<^verbatim>\<open>Object.getPrototypeOf\<close>, the built-in that reads the
  prototype of a value; a primitive has the prototype of its wrapper, \<^verbatim>\<open>null\<close> has
  none.\<close>

fun prototype_of :: "jsvalue \<Rightarrow> proto option" where
  "prototype_of JNull = None"
| "prototype_of (JBool b) = Some Boolean_prototype"
| "prototype_of (JNum n) = Some Number_prototype"
| "prototype_of (JStr s) = Some String_prototype"
| "prototype_of (JArray p xs) = Some p"
| "prototype_of (JObject p kvs) = Some p"

text \<open>\<^verbatim>\<open>function getJSON(obj) { return JSON.stringify(obj); }\<close>\<close>

definition getJSON :: "jsvalue \<Rightarrow> json_text" where
  "getJSON obj = JSON_stringify obj"

text \<open>\<^verbatim>\<open>const obj = JSON.parse(json); Object.setPrototypeOf(obj, proto); return obj;\<close>
  The second statement changes \<open>obj\<close> in place or throws.\<close>

definition fromJSON :: "proto \<Rightarrow> json_text \<Rightarrow> js_error + jsvalue" where
  "fromJSON proto json =
     (let obj = JSON_parse json in
      case Object_setPrototypeOf obj proto of
        Inl thrown \<Rightarrow> Inl thrown
      | Inr obj1 \<Rightarrow> Inr obj1)"

text \<open>An object or an array, as opposed to \<^verbatim>\<open>null\<close> and the primitives.\<close>

fun is_object :: "jsvalue \<Rightarrow> bool" where
  "is_object (JArray p xs) = True"
| "is_object (JObject p kvs) = True"
| "is_object v = False"

text \<open>The own properties of a value (the elements of an array under their indices are
  its properties), each with the JSON text of what it holds.\<close>

fun own_properties :: "jsvalue \<Rightarrow> (string \<times> json_text) list + json_text list" where
  "own_properties (JObject p kvs) = Inl (map (map_prod id JSON_stringify) kvs)"
| "own_properties (JArray p xs) = Inr (map JSON_stringify xs)"
| "own_properties v = Inl []"

section \<open>The specification's vocabulary\<close>

text \<open>The rendered fragment of a part, as the specification lists them: \<open>value\<close>,
  \<open>#value\<close>, \<open>.value\<close>, \<open>[value]\<close>, \<open>:value\<close>, \<open>::value\<close>.\<close>

fun fragment :: "kind \<Rightarrow> string \<Rightarrow> string" where
  "fragment Element v = v"
| "fragment Id v = ''#'' @ v"
| "fragment Class v = ''.'' @ v"
| "fragment Attr v = ''['' @ v @ '']''"
| "fragment PseudoClass v = '':'' @ v"
| "fragment PseudoElement v = ''::'' @ v"

text \<open>The canonical order: element, id, class, attribute, pseudo-class, pseudo-element.\<close>

fun rank :: "kind \<Rightarrow> nat" where
  "rank Element = 0"
| "rank Id = 1"
| "rank Class = 2"
| "rank Attr = 3"
| "rank PseudoClass = 4"
| "rank PseudoElement = 5"

fun repeatable :: "kind \<Rightarrow> bool" where
  "repeatable Class = True"
| "repeatable Attr = True"
| "repeatable PseudoClass = True"
| "repeatable k = False"

text \<open>\<open>k\<close> may come, at any distance, after \<open>j\<close>.\<close>

definition follows :: "kind \<Rightarrow> kind \<Rightarrow> bool" where
  "follows j k = (rank j < rank k \<or> (j = k \<and> repeatable k))"

text \<open>A sequence of kinds in canonical order, with element, id and pseudo-element at most
  once.\<close>

definition canonical :: "kind list \<Rightarrow> bool" where
  "canonical ks = sorted_wrt follows ks"

text \<open>The call sequences \<open>element? id? class* attribute* pseudo-class* pseudo-element?\<close>:
  an optional value for each of the three kinds that occur at most once, a list of
  values for each of the others.\<close>

definition canonical_parts ::
  "string option \<Rightarrow> string option \<Rightarrow> string list \<Rightarrow> string list \<Rightarrow> string list \<Rightarrow> string option
     \<Rightarrow> (kind \<times> string) list" where
  "canonical_parts e i cs as ps pe =
     map (Pair Element) (case e of None \<Rightarrow> [] | Some v \<Rightarrow> [v])
   @ map (Pair Id) (case i of None \<Rightarrow> [] | Some v \<Rightarrow> [v])
   @ map (Pair Class) cs
   @ map (Pair Attr) as
   @ map (Pair PseudoClass) ps
   @ map (Pair PseudoElement) (case pe of None \<Rightarrow> [] | Some v \<Rightarrow> [v])"

definition calls :: "(kind \<times> string) list \<Rightarrow> 'a call list" where
  "calls ps = map (\<lambda>(k, v). Part k v) ps"

definition text_of :: "(kind \<times> string) list \<Rightarrow> string" where
  "text_of ps = concat (map (\<lambda>(k, v). fragment k v) ps)"

text \<open>The builder's \<open>appendedKinds\<close> of the specification: the kinds whose tags, one after
  the other, are the string \<^verbatim>\<open>creationOrder\<close>.\<close>

definition order_of :: "kind list \<Rightarrow> string" where
  "order_of ks = concat (map tag ks)"

section \<open>The language of a regular expression\<close>

definition conc :: "string set \<Rightarrow> string set \<Rightarrow> string set" where
  "conc A B = (\<Union>u\<in>A. (\<lambda>v. u @ v) ` B)"

inductive_set star :: "string set \<Rightarrow> string set" for A :: "string set" where
  star_nil: "[] \<in> star A"
| star_app: "u \<in> A \<Longrightarrow> v \<in> star A \<Longrightarrow> u @ v \<in> star A"

fun lang :: "regex \<Rightarrow> string set" where
  "lang Fail = {}"
| "lang Empty = {[]}"
| "lang (Chr c) = {[c]}"
| "lang Whitespace = (\<lambda>c. [c]) ` Collect is_space"
| "lang (Alt r s) = lang r \<union> lang s"
| "lang (Cat r s) = conc (lang r) (lang s)"
| "lang (Rep r) = star (lang r)"

text \<open>What \<^const>\<open>validOrderPattern\<close> still accepts after the tag of a kind.\<close>

definition from_pseudoClass :: regex where
  "from_pseudoClass = Cat (Rep (Lit ''pseudo-class'')) (Opt (Lit ''pseudo-element''))"

definition from_attr :: regex where
  "from_attr = Cat (Rep (Lit ''attr'')) from_pseudoClass"

definition from_class :: regex where
  "from_class = Cat (Rep (Lit ''class'')) from_attr"

definition from_id :: regex where
  "from_id = Cat (Opt (Lit ''id'')) from_class"

fun rest :: "kind \<Rightarrow> regex" where
  "rest Element = from_id"
| "rest Id = from_class"
| "rest Class = from_class"
| "rest Attr = from_attr"
| "rest PseudoClass = from_pseudoClass"
| "rest PseudoElement = Empty"

section \<open>Regular expressions: the matcher decides the language\<close>


lemma conc_iff: "w \<in> conc A B \<longleftrightarrow> (\<exists>u v. w = u @ v \<and> u \<in> A \<and> v \<in> B)"
  by (auto simp: conc_def)

lemma conc_empty [simp]: "conc {} B = {}" "conc A {} = {}"
  by (auto simp: conc_def)

lemma conc_unit [simp]: "conc {[]} B = B" "conc A {[]} = A"
  by (auto simp: conc_def)

lemma nil_in_conc [simp]: "[] \<in> conc A B \<longleftrightarrow> [] \<in> A \<and> [] \<in> B"
  by (auto simp: conc_iff)

lemma cons_in_conc:
  "a # w \<in> conc A B \<longleftrightarrow>
     (\<exists>u v. w = u @ v \<and> a # u \<in> A \<and> v \<in> B) \<or> ([] \<in> A \<and> a # w \<in> B)"
proof
  assume "a # w \<in> conc A B"
  then obtain x v where xv: "a # w = x @ v" "x \<in> A" "v \<in> B"
    by (auto simp: conc_iff)
  show "(\<exists>u v. w = u @ v \<and> a # u \<in> A \<and> v \<in> B) \<or> ([] \<in> A \<and> a # w \<in> B)"
  proof (cases x)
    case Nil
    with xv show ?thesis by simp
  next
    case (Cons b u)
    with xv have "w = u @ v" "a # u \<in> A" by auto
    with xv show ?thesis by blast
  qed
next
  assume "(\<exists>u v. w = u @ v \<and> a # u \<in> A \<and> v \<in> B) \<or> ([] \<in> A \<and> a # w \<in> B)"
  then show "a # w \<in> conc A B"
  proof
    assume "\<exists>u v. w = u @ v \<and> a # u \<in> A \<and> v \<in> B"
    then obtain u v where "w = u @ v" "a # u \<in> A" "v \<in> B" by blast
    then have "a # w = (a # u) @ v" by simp
    with \<open>a # u \<in> A\<close> \<open>v \<in> B\<close> show ?thesis unfolding conc_iff by blast
  next
    assume "[] \<in> A \<and> a # w \<in> B"
    then have "a # w = [] @ (a # w)" "[] \<in> A" "a # w \<in> B" by auto
    then show ?thesis unfolding conc_iff by blast
  qed
qed

lemma star_cons_split:
  assumes "x \<in> star A" "x = a # w"
  shows "\<exists>u v. w = u @ v \<and> a # u \<in> A \<and> v \<in> star A"
  using assms
proof (induction arbitrary: a w rule: star.induct)
  case star_nil
  then show ?case by simp
next
  case (star_app u v)
  show ?case
  proof (cases u)
    case Nil
    with star_app show ?thesis by simp
  next
    case (Cons b u')
    with star_app.prems have "w = u' @ v" "b = a" by auto
    with star_app.hyps Cons show ?thesis by blast
  qed
qed

lemma cons_in_star:
  "a # w \<in> star A \<longleftrightarrow> (\<exists>u v. w = u @ v \<and> a # u \<in> A \<and> v \<in> star A)"
proof
  assume "a # w \<in> star A"
  then show "\<exists>u v. w = u @ v \<and> a # u \<in> A \<and> v \<in> star A"
    by (rule star_cons_split) simp
next
  assume "\<exists>u v. w = u @ v \<and> a # u \<in> A \<and> v \<in> star A"
  then obtain u v where "w = u @ v" "a # u \<in> A" "v \<in> star A" by blast
  then show "a # w \<in> star A"
    using star_app [of "a # u" A v] by simp
qed

lemma nullable_lang: "nullable r \<longleftrightarrow> [] \<in> lang r"
  by (induction r) (auto intro: star_nil)

lemma deriv_iff: "w \<in> lang (deriv a r) \<longleftrightarrow> a # w \<in> lang r"
proof (induction r arbitrary: w)
  case (Cat r s)
  have "w \<in> conc (lang (deriv a r)) (lang s) \<longleftrightarrow>
        (\<exists>u v. w = u @ v \<and> a # u \<in> lang r \<and> v \<in> lang s)"
    by (simp add: conc_iff Cat.IH)
  then show ?case
    by (simp add: cons_in_conc nullable_lang Cat.IH)
next
  case (Rep r)
  have "w \<in> conc (lang (deriv a r)) (star (lang r)) \<longleftrightarrow>
        (\<exists>u v. w = u @ v \<and> a # u \<in> lang r \<and> v \<in> star (lang r))"
    by (simp add: conc_iff Rep.IH)
  then show ?case
    by (simp add: cons_in_star)
qed auto

lemma deriv_lang: "lang (deriv a r) = {w. a # w \<in> lang r}"
  by (auto simp: deriv_iff)

lemma derivs_lang: "lang (derivs w r) = {v. w @ v \<in> lang r}"
  by (induction w arbitrary: r) (simp_all add: deriv_lang)

lemma test_anchored_lang: "test_anchored r s \<longleftrightarrow> s \<in> lang r"
  by (simp add: test_anchored_def nullable_lang derivs_lang)

lemma match_here_lang: "match_here r s \<longleftrightarrow> (\<exists>u v. s = u @ v \<and> u \<in> lang r)"
proof (induction s arbitrary: r)
  case Nil
  then show ?case by (simp add: nullable_lang)
next
  case (Cons a w)
  show ?case
  proof
    assume "match_here r (a # w)"
    then consider "nullable r" | "match_here (deriv a r) w" by auto
    then show "\<exists>u v. a # w = u @ v \<and> u \<in> lang r"
    proof cases
      case 1
      then have "a # w = [] @ (a # w)" "[] \<in> lang r" by (simp_all add: nullable_lang)
      then show ?thesis by blast
    next
      case 2
      then obtain u v where "w = u @ v" "a # u \<in> lang r"
        using Cons.IH by (auto simp: deriv_lang)
      then have "a # w = (a # u) @ v" by simp
      with \<open>a # u \<in> lang r\<close> show ?thesis by blast
    qed
  next
    assume "\<exists>u v. a # w = u @ v \<and> u \<in> lang r"
    then obtain u v where uv: "a # w = u @ v" "u \<in> lang r" by blast
    show "match_here r (a # w)"
    proof (cases u)
      case Nil
      with uv have "nullable r" by (simp add: nullable_lang)
      then show ?thesis by simp
    next
      case (Cons b u')
      with uv have "w = u' @ v" "a # u' \<in> lang r" by auto
      then have "match_here (deriv a r) w"
        using Cons.IH by (auto simp: deriv_lang)
      then show ?thesis by simp
    qed
  qed
qed

lemma test_lang: "test r s \<longleftrightarrow> (\<exists>p u v. s = p @ u @ v \<and> u \<in> lang r)"
proof (induction s)
  case Nil
  then show ?case by (simp add: nullable_lang)
next
  case (Cons a w)
  show ?case
  proof
    assume "test r (a # w)"
    then consider "match_here r (a # w)" | "test r w" by auto
    then show "\<exists>p u v. a # w = p @ u @ v \<and> u \<in> lang r"
    proof cases
      case 1
      then obtain u v where "a # w = [] @ u @ v" "u \<in> lang r"
        by (auto simp: match_here_lang)
      then show ?thesis by blast
    next
      case 2
      then obtain p u v where "w = p @ u @ v" "u \<in> lang r"
        using Cons.IH by blast
      then have "a # w = (a # p) @ u @ v" by simp
      with \<open>u \<in> lang r\<close> show ?thesis by blast
    qed
  next
    assume "\<exists>p u v. a # w = p @ u @ v \<and> u \<in> lang r"
    then obtain p u v where puv: "a # w = p @ u @ v" "u \<in> lang r" by blast
    show "test r (a # w)"
    proof (cases p)
      case Nil
      with puv have "match_here r (a # w)"
        unfolding match_here_lang by auto
      then show ?thesis by simp
    next
      case (Cons b p')
      with puv have "w = p' @ u @ v" by simp
      with puv have "test r w" using Cons.IH by blast
      then show ?thesis by simp
    qed
  qed
qed

lemma lang_Lit [simp]: "lang (Lit s) = {s}"
  by (induction s) (auto simp: conc_def)

lemma test_Lit: "test (Lit t) s \<longleftrightarrow> sublist t s"
  by (auto simp: test_lang sublist_def)

section \<open>The order pattern accepts the canonical sequences\<close>

lemma conc_single [simp]: "conc {u} {v} = {u @ v}"
  by (auto simp: conc_def)

lemma conc_Un [simp]: "conc (A \<union> B) C = conc A C \<union> conc B C"
  by (auto simp: conc_def)

lemmas rest_defs = from_id_def from_class_def from_attr_def from_pseudoClass_def Opt_def

lemma follows_trans: "follows i j \<Longrightarrow> follows j k \<Longrightarrow> follows i k"
  by (auto simp: follows_def)

lemma derivs_rest:
  "lang (derivs (tag k) (rest j)) = (if follows j k then lang (rest k) else {})"
  by (cases j; cases k; simp add: rest_defs follows_def)

lemma derivs_start: "lang (derivs (tag k) validOrderPattern) = lang (rest k)"
  by (cases k; simp add: rest_defs validOrderPattern_def)

lemma nil_in_rest: "[] \<in> lang (rest j)"
  by (cases j; simp add: rest_defs star_nil)

lemma nil_valid: "[] \<in> lang validOrderPattern"
  by (simp add: validOrderPattern_def Opt_def star_nil)

lemma order_of_simps [simp]:
  "order_of [] = []" "order_of (k # ks) = tag k @ order_of ks"
  "order_of (ks @ js) = order_of ks @ order_of js"
  by (simp_all add: order_of_def)

lemma rest_accepts:
  "order_of ks \<in> lang (rest j) \<longleftrightarrow> (\<forall>k\<in>set ks. follows j k) \<and> canonical ks"
proof (induction ks arbitrary: j)
  case Nil
  show ?case by (simp add: nil_in_rest canonical_def)
next
  case (Cons k ks)
  have "order_of (k # ks) \<in> lang (rest j) \<longleftrightarrow> order_of ks \<in> lang (derivs (tag k) (rest j))"
    by (simp add: derivs_lang)
  also have "\<dots> \<longleftrightarrow> follows j k \<and> order_of ks \<in> lang (rest k)"
    by (simp add: derivs_rest)
  also have "\<dots> \<longleftrightarrow> follows j k \<and> (\<forall>i\<in>set ks. follows k i) \<and> canonical ks"
    by (simp add: Cons.IH)
  also have "\<dots> \<longleftrightarrow> (\<forall>i\<in>set (k # ks). follows j i) \<and> canonical (k # ks)"
    by (auto simp: canonical_def intro: follows_trans)
  finally show ?case .
qed

lemma valid_iff: "test_anchored validOrderPattern (order_of ks) \<longleftrightarrow> canonical ks"
proof (cases ks)
  case Nil
  then show ?thesis by (simp add: test_anchored_lang nil_valid canonical_def)
next
  case (Cons k js)
  have "order_of (k # js) \<in> lang validOrderPattern \<longleftrightarrow>
        order_of js \<in> lang (derivs (tag k) validOrderPattern)"
    by (simp add: derivs_lang)
  then show ?thesis
    by (simp add: Cons test_anchored_lang derivs_start rest_accepts canonical_def)
qed

section \<open>The duplicate check on a recorded order\<close>

lemma singleton_tag: "test singletonPattern (tag k) \<longleftrightarrow> \<not> repeatable k"
  by (cases k; simp add: singletonPattern_def)

lemma test_RegExp: "test (RegExp t) s \<longleftrightarrow> sublist t s"
  by (simp add: RegExp_def test_Lit)

lemma tag_occurs: "k \<in> set ks \<Longrightarrow> sublist (tag k) (order_of ks)"
proof (induction ks)
  case Nil
  then show ?case by simp
next
  case (Cons j ks)
  show ?case
  proof (cases "k = j")
    case True
    then show ?thesis by simp
  next
    case False
    with Cons have "sublist (tag k) (order_of ks)" by simp
    then show ?thesis
      by (simp add: sublist_append)
  qed
qed

lemma element_occurs:
  assumes "PseudoElement \<in> set ks"
  shows "sublist (tag Element) (order_of ks)"
proof -
  from tag_occurs [OF assms] obtain ps ss where "order_of ks = ps @ tag PseudoElement @ ss"
    unfolding sublist_def by blast
  then have "order_of ks = (ps @ ''pseudo-'') @ tag Element @ ss" by simp
  then show ?thesis unfolding sublist_def by blast
qed

lemma tag_absent:
  "k \<notin> set ks \<Longrightarrow> \<not> repeatable k \<Longrightarrow> (k = Element \<longrightarrow> PseudoElement \<notin> set ks)
     \<Longrightarrow> \<not> sublist (tag k) (order_of ks)"
proof (induction ks)
  case Nil
  then show ?case by (cases k) simp_all
next
  case (Cons j ks)
  then have IH: "\<not> sublist (tag k) (order_of ks)" and "k \<noteq> j"
    and "\<not> repeatable k" and "k = Element \<longrightarrow> j \<noteq> PseudoElement"
    by auto
  then show ?case
    by (cases k; cases j; simp add: sublist_Cons_right)
qed

lemma duplicate_iff:
  "test singletonPattern (tag k) \<and> test (RegExp (tag k)) (order_of ks) \<longleftrightarrow>
     \<not> repeatable k \<and> (k \<in> set ks \<or> (k = Element \<and> PseudoElement \<in> set ks))"
  using tag_occurs [of k ks] element_occurs [of ks] tag_absent [of k ks]
  by (auto simp: singleton_tag test_RegExp)

lemma part_unfold:
  "part k v this =
     (if test singletonPattern (tag k) \<and> test (RegExp (tag k)) (creationOrder this)
      then Inl (noDuplicateSelectors, this)
      else if \<not> test_anchored validOrderPattern (creationOrder this @ tag k)
      then Inl (selectorsOrderError, this\<lparr>creationOrder := creationOrder this @ tag k\<rparr>)
      else Inr \<lparr>selector = selector this @ fragment k v,
                creationOrder = creationOrder this @ tag k\<rparr>)"
  by (cases k;
      simp add: element_def id_sel_def class_sel_def attr_def pseudoClass_def pseudoElement_def
        checkSelectorStructure_def Let_def)

section \<open>What every call does to the recorded order\<close>

lemma part_grows: "\<exists>s. creationOrder (left_by (part k v this)) = creationOrder this @ s"
  by (simp add: part_unfold)

lemma combine_order: "creationOrder (left_by (combine a c b this)) = creationOrder this"
  by (simp add: combine_def)

lemma exec_grows: "\<exists>s. creationOrder (left_by (exec c this)) = creationOrder this @ s"
  by (cases c) (simp_all add: part_grows combine_order)

lemma after_grows: "\<exists>s. creationOrder (after ops this) = creationOrder this @ s"
proof (induction ops arbitrary: this)
  case Nil
  then show ?case by simp
next
  case (Cons c ops)
  obtain s where s: "creationOrder (left_by (exec c this)) = creationOrder this @ s"
    using exec_grows by blast
  obtain t where "creationOrder (after ops (left_by (exec c this)))
      = creationOrder (left_by (exec c this)) @ t"
    using Cons.IH by blast
  with s show ?case by simp
qed

section \<open>The combinator test\<close>

lemma lang_allowed:
  "u \<in> lang allowedCombinators \<longleftrightarrow>
     (\<exists>x. u = [x] \<and> (is_space x \<or> x = CHR ''+'' \<or> x = CHR ''~'' \<or> x = CHR ''>''))"
  unfolding allowedCombinators_def by auto

text \<open>The pattern has no anchors: \<^verbatim>\<open>combine\<close> accepts every combinator that holds a
  white-space character, a plus, a tilde or a greater-than sign anywhere.\<close>

lemma allowed_iff:
  "test allowedCombinators c \<longleftrightarrow>
     (\<exists>x\<in>set c. is_space x \<or> x = CHR ''+'' \<or> x = CHR ''~'' \<or> x = CHR ''>'')"
proof
  assume "test allowedCombinators c"
  then obtain p u v where "c = p @ u @ v" "u \<in> lang allowedCombinators"
    unfolding test_lang by blast
  then obtain x where "c = p @ [x] @ v"
    and "is_space x \<or> x = CHR ''+'' \<or> x = CHR ''~'' \<or> x = CHR ''>''"
    unfolding lang_allowed by blast
  then show "\<exists>x\<in>set c. is_space x \<or> x = CHR ''+'' \<or> x = CHR ''~'' \<or> x = CHR ''>''"
    by auto
next
  assume "\<exists>x\<in>set c. is_space x \<or> x = CHR ''+'' \<or> x = CHR ''~'' \<or> x = CHR ''>''"
  then obtain x where "x \<in> set c"
    and x: "is_space x \<or> x = CHR ''+'' \<or> x = CHR ''~'' \<or> x = CHR ''>''"
    by blast
  then obtain p v where "c = p @ [x] @ v"
    by (auto simp: in_set_conv_decomp)
  moreover from x have "[x] \<in> lang allowedCombinators"
    unfolding lang_allowed by blast
  ultimately show "test allowedCombinators c"
    unfolding test_lang by blast
qed

section \<open>Duplicates\<close>

text \<open>
  Claim C3. On any builder, once a call of kind element, id or pseudo-element has
  succeeded, every later call of the same kind on that builder fails with the error of
  \<^verbatim>\<open>noDuplicateSelectors\<close>, whatever calls (part appends that succeed or throw,
  \<^verbatim>\<open>combine\<close>) were made in between; the failing call leaves the builder as it was.
\<close>

theorem second_singleton_rejected:
  assumes "k = Element \<or> k = Id \<or> k = PseudoElement"
    and "exec (Part k v) this = Inr this1"
  shows "exec (Part k w) (after ops this1) = Inl (noDuplicateSelectors, after ops this1)"
proof -
  from assms(2) have "creationOrder this1 = creationOrder this @ tag k"
    by (auto simp: part_unfold split: if_splits)
  moreover obtain s where "creationOrder (after ops this1) = creationOrder this1 @ s"
    using after_grows by blast
  ultimately have "creationOrder (after ops this1) = creationOrder this @ tag k @ s"
    by simp
  then have "test (RegExp (tag k)) (creationOrder (after ops this1))"
    by (simp add: test_RegExp)
  moreover from assms(1) have "test singletonPattern (tag k)"
    by (auto simp: singleton_tag)
  ultimately show ?thesis by (simp add: part_unfold)
qed

text \<open>The witness for C3: \<^verbatim>\<open>id('main')\<close> on a new builder, then \<^verbatim>\<open>class('x')\<close>, an
  \<^verbatim>\<open>element('a')\<close> that throws, and a \<^verbatim>\<open>combine\<close>; then \<^verbatim>\<open>id('other')\<close>.\<close>

theorem second_singleton_rejected_witness:
  "(Id = Element \<or> Id = Id \<or> Id = PseudoElement)
   \<and> exec (Part Id ''main'') constructor = Inr \<lparr>selector = ''#main'', creationOrder = ''id''\<rparr>
   \<and> exec (Part Id ''other'')
        (after [Part Class ''x'', Part Element ''a'', Combine constructor ''+'' constructor]
           \<lparr>selector = ''#main'', creationOrder = ''id''\<rparr>)
      = Inl (noDuplicateSelectors,
          after [Part Class ''x'', Part Element ''a'', Combine constructor ''+'' constructor]
            \<lparr>selector = ''#main'', creationOrder = ''id''\<rparr>)"
proof -
  have a: "Id = Element \<or> Id = Id \<or> Id = PseudoElement"
    by simp
  have b: "exec (Part Id ''main'') constructor = Inr \<lparr>selector = ''#main'', creationOrder = ''id''\<rparr>"
    by code_simp
  from a b second_singleton_rejected [OF a b] show ?thesis
    by blast
qed

text \<open>
  Claim C9, as amended. Whenever the duplicate check of a part call fires (the tag is one
  of element, id, pseudo-element and occurs in the recorded order), the call throws an
  error whose message is exactly ``Element, id and pseudo-element should not occur more
  then one time inside the selector'' (the source's wording, with ``then''), and the
  builder is left as it was.
\<close>

theorem duplicate_message:
  assumes "test singletonPattern (tag k)" and "test (RegExp (tag k)) (creationOrder this)"
  shows "part k v this =
    Inl (Error ''Element, id and pseudo-element should not occur more then one time inside the selector'',
         this)"
  using assms by (simp add: part_unfold noDuplicateSelectors_def)

text \<open>The witness for C9: \<^verbatim>\<open>id('other')\<close> on the builder of \<^verbatim>\<open>id('main')\<close>.\<close>

theorem duplicate_message_witness:
  "test singletonPattern (tag Id)
   \<and> test (RegExp (tag Id)) (creationOrder \<lparr>selector = ''#main'', creationOrder = ''id''\<rparr>)
   \<and> part Id ''other'' \<lparr>selector = ''#main'', creationOrder = ''id''\<rparr> =
    Inl (Error ''Element, id and pseudo-element should not occur more then one time inside the selector'',
         \<lparr>selector = ''#main'', creationOrder = ''id''\<rparr>)"
proof -
  have a: "test singletonPattern (tag Id)"
    by code_simp
  have b: "test (RegExp (tag Id)) (creationOrder \<lparr>selector = ''#main'', creationOrder = ''id''\<rparr>)"
    by code_simp
  from a b duplicate_message [OF a b, of "''other''"] show ?thesis
    by blast
qed

text \<open>Claim C9 as stated, with ``than'', fails at \<^verbatim>\<open>id('main').id('other')\<close>.\<close>

theorem duplicate_message_counterexample:
  "chain [Part Id ''main''] constructor = Inr \<lparr>selector = ''#main'', creationOrder = ''id''\<rparr>
   \<and> exec (Part Id ''other'') \<lparr>selector = ''#main'', creationOrder = ''id''\<rparr>
       = Inl (noDuplicateSelectors, \<lparr>selector = ''#main'', creationOrder = ''id''\<rparr>)
   \<and> noDuplicateSelectors \<noteq>
       Error ''Element, id and pseudo-element should not occur more than one time inside the selector''"
  by code_simp

section \<open>Helpers on errors, the store and the combinator\<close>

lemma errors_distinct:
  "noDuplicateSelectors \<noteq> selectorsOrderError"
  "combinatorError x \<noteq> noDuplicateSelectors"
  "combinatorError x \<noteq> selectorsOrderError"
  by (simp_all add: noDuplicateSelectors_def selectorsOrderError_def combinatorError_def)

lemma listed_allowed:
  assumes "c = '' '' \<or> c = ''+'' \<or> c = ''~'' \<or> c = ''>''"
  shows "test allowedCombinators c"
proof -
  have "CHR '' '' \<in> set c \<or> CHR ''+'' \<in> set c \<or> CHR ''~'' \<in> set c \<or> CHR ''>'' \<in> set c"
    using assms by auto
  moreover have "is_space (CHR '' '')" by code_simp
  ultimately show ?thesis
    unfolding allowed_iff by blast
qed

lemma deref_grow: "deref h r = Some a \<Longrightarrow> deref (h @ [x]) r = Some a"
  by (cases "r < length h") (simp_all add: deref_def nth_append)

lemma deref_new: "deref (h @ [x]) (length h) = Some x"
  by (simp add: deref_def)

lemma invoke_new:
  "invoke m (length h) (h @ [x]) =
     Some (case m x of
             Inl (thrown, obj) \<Rightarrow> (Inl thrown, h @ [obj])
           | Inr obj \<Rightarrow> (Inr (length h), h @ [obj]))"
proof (cases "m x")
  case (Inl t)
  then show ?thesis
    by (cases t) (simp add: invoke_def deref_new)
next
  case (Inr obj)
  then show ?thesis
    by (simp add: invoke_def deref_new)
qed

lemma part_after_text:
  assumes "creationOrder this1 = creationOrder this"
  shows "part k v this1 =
            (case part k v this of
               Inl (e, s) \<Rightarrow> Inl (e, s\<lparr>selector := selector this1\<rparr>)
             | Inr s \<Rightarrow> Inr (s\<lparr>selector := selector this1 @ fragment k v\<rparr>))"
proof -
  obtain t o1 where A: "this = \<lparr>selector = t, creationOrder = o1\<rparr>"
    by (cases this) auto
  obtain t1 where B: "this1 = \<lparr>selector = t1, creationOrder = o1\<rparr>"
    using assms A by (cases this1) auto
  show ?thesis
  proof (cases "test singletonPattern (tag k) \<and> test (RegExp (tag k)) o1")
    case True
    then show ?thesis
      by (simp add: part_unfold A B)
  next
    case False
    then show ?thesis
      by (cases "test_anchored validOrderPattern (o1 @ tag k)")
        (auto simp add: part_unfold A B)
  qed
qed

section \<open>combine\<close>

text \<open>
  Claim C2. For builders \<open>a\<close>, \<open>b\<close> and a combinator \<open>c\<close> among the four strings
  \<^verbatim>\<open>' '\<close>, \<^verbatim>\<open>'+'\<close>, \<^verbatim>\<open>'~'\<close>, \<^verbatim>\<open>'>'\<close>: the facade's \<^verbatim>\<open>combine(a, c, b)\<close> succeeds and
  \<^verbatim>\<open>stringify()\<close> of the builder it returns is \<open>a.stringify()\<close>, a space, \<open>c\<close>, a space,
  \<open>b.stringify()\<close>, which for the descendant combinator puts exactly three spaces
  between the two operands' texts; the method on any receiving builder succeeds and
  \<^verbatim>\<open>stringify()\<close> of the builder it returns is the text the receiver already held followed
  by that combined text.
\<close>

theorem combine_text:
  assumes "c = '' '' \<or> c = ''+'' \<or> c = ''~'' \<or> c = ''>''"
    and "deref h selector1 = Some a" and "deref h selector2 = Some b"
  shows "(case cssSelectorBuilder_combine selector1 c selector2 h of
            Some (Inr r, h1) \<Rightarrow>
              r = length h
              \<and> map_option stringify (deref h1 r)
                  = Some (stringify a @ '' '' @ c @ '' '' @ stringify b)
              \<and> (c = '' '' \<longrightarrow>
                   map_option stringify (deref h1 r)
                     = Some (stringify a @ ''   '' @ stringify b))
          | _ \<Rightarrow> False)
       \<and> (case combine a c b this of
            Inr r \<Rightarrow>
              stringify r = stringify this @ stringify a @ '' '' @ c @ '' '' @ stringify b
          | Inl thrown \<Rightarrow> False)
       \<and> cssSelectorBuilder_combine selector1 c selector2 h =
           Some (Inr (length h),
                 h @ [\<lparr>selector = stringify a @ '' '' @ c @ '' '' @ stringify b,
                        creationOrder = ''''\<rparr>])
       \<and> combine a c b this =
           Inr (this\<lparr>selector := selector this @ stringify a @ '' '' @ c @ '' '' @ stringify b\<rparr>)"
proof -
  let ?t = "stringify a @ '' '' @ c @ '' '' @ stringify b"
  have ok: "test allowedCombinators c"
    using assms(1) by (rule listed_allowed)
  have m: "combine a c b this = Inr (this\<lparr>selector := selector this @ ?t\<rparr>)" for this
    using ok by (simp add: combine_def)
  have "cssSelectorBuilder_combine selector1 c selector2 h =
      invoke (combine a c b) (length h) (h @ [constructor])"
    using assms(2,3)
    by (simp add: cssSelectorBuilder_combine_def new_CssSelectorCreator_def deref_grow)
  then have f: "cssSelectorBuilder_combine selector1 c selector2 h =
      Some (Inr (length h), h @ [\<lparr>selector = ?t, creationOrder = ''''\<rparr>])"
    unfolding invoke_new m by (simp add: constructor_def)
  have s: "map_option stringify (deref (h @ [\<lparr>selector = ?t, creationOrder = ''''\<rparr>]) (length h))
      = Some ?t"
    by (simp add: deref_new stringify_def)
  have s3: "c = '' '' \<longrightarrow>
      map_option stringify (deref (h @ [\<lparr>selector = ?t, creationOrder = ''''\<rparr>]) (length h))
        = Some (stringify a @ ''   '' @ stringify b)"
  proof
    assume "c = '' ''"
    then have "?t = stringify a @ ''   '' @ stringify b"
      by simp
    then have "Some ?t = Some (stringify a @ ''   '' @ stringify b)"
      by (rule arg_cong)
    with s show "map_option stringify
        (deref (h @ [\<lparr>selector = ?t, creationOrder = ''''\<rparr>]) (length h))
        = Some (stringify a @ ''   '' @ stringify b)"
      by (rule trans)
  qed
  have p: "stringify (this\<lparr>selector := selector this @ ?t\<rparr>) = stringify this @ ?t"
    by (simp add: stringify_def)
  from f s s3 have 1: "(case cssSelectorBuilder_combine selector1 c selector2 h of
            Some (Inr r, h1) \<Rightarrow>
              r = length h
              \<and> map_option stringify (deref h1 r) = Some ?t
              \<and> (c = '' '' \<longrightarrow>
                   map_option stringify (deref h1 r)
                     = Some (stringify a @ ''   '' @ stringify b))
          | _ \<Rightarrow> False)"
    by simp
  from m p have 2: "(case combine a c b this of
            Inr r \<Rightarrow> stringify r = stringify this @ ?t
          | Inl thrown \<Rightarrow> False)"
    by simp
  from 1 2 f m show ?thesis
    by (intro conjI)
qed

text \<open>The witness for C2: \<^verbatim>\<open>combine(element('tr'), ' ', element('td'))\<close> in a store that holds the
  two operands; \<^verbatim>\<open>stringify()\<close> of the builder it returns is \<open>tr\<close>, three spaces, \<open>td\<close>.\<close>

theorem combine_text_witness:
  "('' '' = '' '' \<or> '' '' = ''+'' \<or> '' '' = ''~'' \<or> '' '' = ''>'')
   \<and> deref [\<lparr>selector = ''tr'', creationOrder = ''element''\<rparr>,
            \<lparr>selector = ''td'', creationOrder = ''element''\<rparr>] 0
        = Some \<lparr>selector = ''tr'', creationOrder = ''element''\<rparr>
   \<and> deref [\<lparr>selector = ''tr'', creationOrder = ''element''\<rparr>,
            \<lparr>selector = ''td'', creationOrder = ''element''\<rparr>] 1
        = Some \<lparr>selector = ''td'', creationOrder = ''element''\<rparr>
   \<and> cssSelectorBuilder_combine 0 '' '' 1
        [\<lparr>selector = ''tr'', creationOrder = ''element''\<rparr>,
         \<lparr>selector = ''td'', creationOrder = ''element''\<rparr>]
      = Some (Inr 2,
          [\<lparr>selector = ''tr'', creationOrder = ''element''\<rparr>,
           \<lparr>selector = ''td'', creationOrder = ''element''\<rparr>,
           \<lparr>selector = ''tr   td'', creationOrder = ''''\<rparr>])
   \<and> map_option stringify
        (deref [\<lparr>selector = ''tr'', creationOrder = ''element''\<rparr>,
                \<lparr>selector = ''td'', creationOrder = ''element''\<rparr>,
                \<lparr>selector = ''tr   td'', creationOrder = ''''\<rparr>] 2)
      = Some ''tr   td''"
proof -
  let ?A = "\<lparr>selector = ''tr'', creationOrder = ''element''\<rparr>"
  let ?B = "\<lparr>selector = ''td'', creationOrder = ''element''\<rparr>"
  let ?h = "[?A, ?B]"
  let ?R = "\<lparr>selector = ''tr   td'', creationOrder = ''''\<rparr>"
  have a: "'' '' = '' '' \<or> '' '' = ''+'' \<or> '' '' = ''~'' \<or> '' '' = ''>''"
    by simp
  have b: "deref ?h 0 = Some ?A"
    by (simp add: deref_def)
  have c: "deref ?h 1 = Some ?B"
    by (simp add: deref_def)
  note r = combine_text [OF a b c, of constructor]
  have f0: "cssSelectorBuilder_combine 0 '' '' 1 ?h =
      Some (Inr (length ?h),
        ?h @ [\<lparr>selector = stringify ?A @ '' '' @ '' '' @ '' '' @ stringify ?B,
               creationOrder = ''''\<rparr>])"
    using r by (elim conjE)
  have t: "stringify ?A @ '' '' @ '' '' @ '' '' @ stringify ?B = ''tr   td''"
    by code_simp
  have l: "length ?h = 2"
    by simp
  have a2: "?h @ [?R] = [?A, ?B, ?R]"
    by simp
  from f0 have f: "cssSelectorBuilder_combine 0 '' '' 1 ?h = Some (Inr 2, [?A, ?B, ?R])"
    unfolding t l a2 .
  have "case cssSelectorBuilder_combine 0 '' '' 1 ?h of
            Some (Inr r, h1) \<Rightarrow>
              r = length ?h
              \<and> map_option stringify (deref h1 r)
                  = Some (stringify ?A @ '' '' @ '' '' @ '' '' @ stringify ?B)
              \<and> ('' '' = '' '' \<longrightarrow>
                   map_option stringify (deref h1 r)
                     = Some (stringify ?A @ ''   '' @ stringify ?B))
          | _ \<Rightarrow> False"
    using r by (elim conjE)
  then have s: "map_option stringify (deref [?A, ?B, ?R] 2) = Some ''tr   td''"
    unfolding f t by simp
  from a b c f s show ?thesis
    by (intro conjI)
qed


text \<open>
  Claim C5, evaluated at the inputs where the code parts from it. The claim says that
  \<^verbatim>\<open>combine\<close> fails for every combinator other than the four strings; the code accepts
  \<^verbatim>\<open>'++'\<close> and a TAB character (lemma \<open>allowed_iff\<close> gives every accepted combinator).
\<close>

theorem combine_accepts_unlisted:
  "combine \<lparr>selector = ''a'', creationOrder = ''element''\<rparr> ''++''
           \<lparr>selector = ''b'', creationOrder = ''element''\<rparr> constructor
     = Inr \<lparr>selector = ''a ++ b'', creationOrder = ''''\<rparr>
   \<and> combine \<lparr>selector = ''a'', creationOrder = ''element''\<rparr> [CHR 0x09]
           \<lparr>selector = ''b'', creationOrder = ''element''\<rparr> constructor
     = Inr \<lparr>selector = ''a '' @ [CHR 0x09] @ '' b'', creationOrder = ''''\<rparr>"
  by code_simp

text \<open>
  Claim C10. \<^verbatim>\<open>combine\<close> validates no kind and records none. When it throws, the error
  is neither that of \<^verbatim>\<open>noDuplicateSelectors\<close> nor that of \<^verbatim>\<open>selectorsOrderError\<close> and
  the builder is as before. When it succeeds, the recorded order is unchanged, the text
  is the old text followed by the combined text, and every part call on the builder
  afterwards has the outcome it would have had before the \<^verbatim>\<open>combine\<close> (the same error, or
  success with the same recorded order), its fragment coming after the combined text.
\<close>

theorem combine_records_no_kind:
  "case combine a c b this of
     Inl (e, this1) \<Rightarrow> e \<noteq> noDuplicateSelectors \<and> e \<noteq> selectorsOrderError \<and> this1 = this
   | Inr this1 \<Rightarrow>
       creationOrder this1 = creationOrder this
       \<and> selector this1 = selector this @ stringify a @ '' '' @ c @ '' '' @ stringify b
       \<and> (\<forall>k v. part k v this1 =
            (case part k v this of
               Inl (e, s) \<Rightarrow> Inl (e, s\<lparr>selector := selector this1\<rparr>)
             | Inr s \<Rightarrow> Inr (s\<lparr>selector := selector this1 @ fragment k v\<rparr>)))"
proof (cases "test allowedCombinators c")
  case False
  then show ?thesis
    by (simp add: combine_def errors_distinct)
next
  case True
  then have "combine a c b this =
      Inr (this\<lparr>selector := selector this @ stringify a @ '' '' @ c @ '' '' @ stringify b\<rparr>)"
    by (simp add: combine_def)
  moreover have "creationOrder
      (this\<lparr>selector := selector this @ stringify a @ '' '' @ c @ '' '' @ stringify b\<rparr>)
      = creationOrder this"
    by simp
  ultimately show ?thesis
    using part_after_text by simp
qed

section \<open>Builders with a recorded order\<close>

lemma part_recorded:
  assumes "creationOrder this = order_of ks"
  shows "creationOrder (left_by (part k v this)) = order_of ks
       \<or> creationOrder (left_by (part k v this)) = order_of (ks @ [k])"
  using assms by (simp add: part_unfold)

lemma exec_recorded:
  assumes "creationOrder this = order_of ks"
  shows "\<exists>js. creationOrder (left_by (exec c this)) = order_of (ks @ js)"
proof (cases c)
  case (Part k v)
  from part_recorded [OF assms, of k v]
  have "creationOrder (left_by (exec c this)) = order_of (ks @ [])
      \<or> creationOrder (left_by (exec c this)) = order_of (ks @ [k])"
    using Part by simp
  then show ?thesis by blast
next
  case (Combine a x b)
  then have "creationOrder (left_by (exec c this)) = order_of (ks @ [])"
    using assms by (simp add: combine_order)
  then show ?thesis by blast
qed

lemma after_recorded:
  assumes "creationOrder this = order_of ks"
  shows "\<exists>js. creationOrder (after ops this) = order_of (ks @ js)"
  using assms
proof (induction ops arbitrary: this ks)
  case Nil
  then have "creationOrder (after [] this) = order_of (ks @ [])" by simp
  then show ?case by blast
next
  case (Cons c ops)
  obtain js where "creationOrder (left_by (exec c this)) = order_of (ks @ js)"
    using exec_recorded [OF Cons.prems] by blast
  from Cons.IH [OF this]
  obtain ls where "creationOrder (after ops (left_by (exec c this))) = order_of ((ks @ js) @ ls)"
    by blast
  then have "creationOrder (after (c # ops) this) = order_of (ks @ (js @ ls))"
    by simp
  then show ?case by blast
qed

text \<open>Every builder that calls can produce from a new one has a recorded order.\<close>

lemma reachable_recorded: "\<exists>ks. creationOrder (after ops constructor) = order_of ks"
proof -
  have "creationOrder constructor = order_of []"
    by (simp add: constructor_def)
  from after_recorded [OF this] show ?thesis
    by auto
qed

lemma canonical_prefix: "canonical (ks @ js) \<Longrightarrow> canonical ks"
  by (simp add: canonical_def sorted_wrt_append)

lemma canonical_last: "canonical (ks @ [k]) \<Longrightarrow> j \<in> set ks \<Longrightarrow> follows j k"
  by (simp add: canonical_def sorted_wrt_append)

lemma follows_rank: "follows j k \<Longrightarrow> rank j \<le> rank k"
  by (auto simp: follows_def)

lemma part_on_recorded:
  assumes "creationOrder this = order_of ks"
  shows "part k v this =
     (if \<not> repeatable k \<and> (k \<in> set ks \<or> (k = Element \<and> PseudoElement \<in> set ks))
      then Inl (noDuplicateSelectors, this)
      else if \<not> canonical (ks @ [k])
      then Inl (selectorsOrderError, this\<lparr>creationOrder := creationOrder this @ tag k\<rparr>)
      else Inr \<lparr>selector = selector this @ fragment k v,
                creationOrder = creationOrder this @ tag k\<rparr>)"
proof -
  have "creationOrder this @ tag k = order_of (ks @ [k])"
    using assms by simp
  then have "test_anchored validOrderPattern (creationOrder this @ tag k) \<longleftrightarrow> canonical (ks @ [k])"
    by (simp only: valid_iff)
  moreover have "test singletonPattern (tag k) \<and> test (RegExp (tag k)) (creationOrder this) \<longleftrightarrow>
     \<not> repeatable k \<and> (k \<in> set ks \<or> (k = Element \<and> PseudoElement \<in> set ks))"
    using assms by (simp only: duplicate_iff)
  ultimately show ?thesis
    by (simp only: part_unfold)
qed

section \<open>Order\<close>

text \<open>
  Claim C4, as amended. Take a builder whose \<^verbatim>\<open>creationOrder\<close> is the recorded order of
  some kinds \<open>ks\<close> (every builder that calls make from a new one is such, lemma
  \<open>reachable_recorded\<close>). If \<open>ks\<close> holds a kind \<open>j\<close>, a call of a
  kind \<open>k\<close> that is earlier than \<open>j\<close> in the canonical order fails. It fails with the
  error of \<^verbatim>\<open>selectorsOrderError\<close>, its tag staying in the recorded order, when \<open>k\<close> is
  class, attribute or pseudo-class, or is an element or id that is not yet recorded (an
  element after a recorded pseudo-element apart, about which nothing is said here). When
  \<open>k\<close> is an element or id that is already recorded, the duplicate check comes first and
  the call fails with the error of \<^verbatim>\<open>noDuplicateSelectors\<close>, the builder unchanged.
\<close>

theorem out_of_order_rejected:
  assumes "creationOrder this = order_of ks" and "j \<in> set ks" and "rank k < rank j"
  shows "(repeatable k \<or> (k \<notin> set ks \<and> \<not> (k = Element \<and> PseudoElement \<in> set ks)) \<longrightarrow>
            part k v this =
              Inl (selectorsOrderError, this\<lparr>creationOrder := creationOrder this @ tag k\<rparr>))
       \<and> (\<not> repeatable k \<and> k \<in> set ks \<longrightarrow> part k v this = Inl (noDuplicateSelectors, this))"
proof -
  have "\<not> follows j k"
    using assms(3) follows_rank [of j k] by auto
  with assms(2) have "\<not> canonical (ks @ [k])"
    using canonical_last by blast
  then show ?thesis
    by (auto simp: part_on_recorded [OF assms(1)])
qed

text \<open>The witness for C4: \<^verbatim>\<open>id('main')\<close> after \<^verbatim>\<open>class('x')\<close> for the first part, the second
  \<^verbatim>\<open>id\<close> of \<^verbatim>\<open>id('a').class('b').id('c')\<close> for the second.\<close>

theorem out_of_order_rejected_witness:
  "creationOrder \<lparr>selector = ''.x'', creationOrder = ''class''\<rparr> = order_of [Class]
   \<and> Class \<in> set [Class] \<and> rank Id < rank Class
   \<and> (repeatable Id \<or> (Id \<notin> set [Class] \<and> \<not> (Id = Element \<and> PseudoElement \<in> set [Class])))
   \<and> part Id ''main'' \<lparr>selector = ''.x'', creationOrder = ''class''\<rparr>
       = Inl (selectorsOrderError, \<lparr>selector = ''.x'', creationOrder = ''classid''\<rparr>)
   \<and> creationOrder \<lparr>selector = ''#a.b'', creationOrder = ''idclass''\<rparr> = order_of [Id, Class]
   \<and> Class \<in> set [Id, Class]
   \<and> (\<not> repeatable Id \<and> Id \<in> set [Id, Class])
   \<and> part Id ''c'' \<lparr>selector = ''#a.b'', creationOrder = ''idclass''\<rparr>
       = Inl (noDuplicateSelectors, \<lparr>selector = ''#a.b'', creationOrder = ''idclass''\<rparr>)"
proof -
  have a1: "creationOrder \<lparr>selector = ''.x'', creationOrder = ''class''\<rparr> = order_of [Class]"
    by (simp add: order_of_def)
  have a2: "Class \<in> set [Class]"
    by simp
  have a3: "rank Id < rank Class"
    by simp
  have a4: "repeatable Id \<or> (Id \<notin> set [Class] \<and> \<not> (Id = Element \<and> PseudoElement \<in> set [Class]))"
    by simp
  have b1: "creationOrder \<lparr>selector = ''#a.b'', creationOrder = ''idclass''\<rparr> = order_of [Id, Class]"
    by (simp add: order_of_def)
  have b2: "Class \<in> set [Id, Class]"
    by simp
  have b4: "\<not> repeatable Id \<and> Id \<in> set [Id, Class]"
    by simp
  have "part Id ''main'' \<lparr>selector = ''.x'', creationOrder = ''class''\<rparr>
       = Inl (selectorsOrderError,
           \<lparr>selector = ''.x'', creationOrder = ''class''\<rparr>
             \<lparr>creationOrder := creationOrder \<lparr>selector = ''.x'', creationOrder = ''class''\<rparr> @ tag Id\<rparr>)"
    using out_of_order_rejected [OF a1 a2 a3, of "''main''"] a4 by blast
  then have c1: "part Id ''main'' \<lparr>selector = ''.x'', creationOrder = ''class''\<rparr>
       = Inl (selectorsOrderError, \<lparr>selector = ''.x'', creationOrder = ''classid''\<rparr>)"
    by simp
  have c2: "part Id ''c'' \<lparr>selector = ''#a.b'', creationOrder = ''idclass''\<rparr>
       = Inl (noDuplicateSelectors, \<lparr>selector = ''#a.b'', creationOrder = ''idclass''\<rparr>)"
    using out_of_order_rejected [OF b1 b2 a3, of "''c''"] b4 by blast
  from a1 a2 a3 a4 b1 b2 b4 c1 c2 show ?thesis
    by blast
qed

text \<open>Claim C4 as stated fails at \<^verbatim>\<open>id('a').class('b').id('c')\<close>, where the id comes
  after a class and the error is the duplicate one, and at
  \<^verbatim>\<open>pseudoElement('x').element('a')\<close>, where the tag \<^verbatim>\<open>element\<close> is found inside the
  recorded \<^verbatim>\<open>pseudo-element\<close> and the error is the duplicate one too.\<close>

theorem out_of_order_rejected_counterexample:
  "chain [Part Id ''a'', Part Class ''b''] constructor
     = Inr \<lparr>selector = ''#a.b'', creationOrder = ''idclass''\<rparr>
   \<and> exec (Part Id ''c'') \<lparr>selector = ''#a.b'', creationOrder = ''idclass''\<rparr>
     = Inl (noDuplicateSelectors, \<lparr>selector = ''#a.b'', creationOrder = ''idclass''\<rparr>)
   \<and> chain [Part PseudoElement ''x''] constructor
     = Inr \<lparr>selector = ''::x'', creationOrder = ''pseudo-element''\<rparr>
   \<and> exec (Part Element ''a'') \<lparr>selector = ''::x'', creationOrder = ''pseudo-element''\<rparr>
     = Inl (noDuplicateSelectors, \<lparr>selector = ''::x'', creationOrder = ''pseudo-element''\<rparr>)
   \<and> noDuplicateSelectors \<noteq> selectorsOrderError"
  by code_simp

section \<open>What a failing call leaves behind\<close>




section \<open>Building in canonical order\<close>

lemma canonical_parts_kinds:
  "canonical (map fst (canonical_parts e i cs as ps pe))"
  by (cases e; cases i; cases pe)
    (auto simp: canonical_parts_def canonical_def sorted_wrt_append sorted_wrt_map follows_def
       comp_def)

lemma canonical_no_duplicate:
  assumes "canonical (ks @ [k])"
  shows "\<not> (\<not> repeatable k \<and> (k \<in> set ks \<or> (k = Element \<and> PseudoElement \<in> set ks)))"
proof
  assume d: "\<not> repeatable k \<and> (k \<in> set ks \<or> (k = Element \<and> PseudoElement \<in> set ks))"
  then consider "\<not> repeatable k" "k \<in> set ks" | "k = Element" "PseudoElement \<in> set ks"
    by blast
  then show False
  proof cases
    case 1
    then have "follows k k" using canonical_last [OF assms] by blast
    with 1 show False by (simp add: follows_def)
  next
    case 2
    then have "follows PseudoElement Element" using canonical_last [OF assms] by blast
    then show False by (simp add: follows_def)
  qed
qed

lemma calls_simps [simp]:
  "calls [] = []" "calls ((k, v) # P) = Part k v # calls P"
  by (simp_all add: calls_def)

lemma text_of_simps [simp]:
  "text_of [] = []" "text_of ((k, v) # P) = fragment k v @ text_of P"
  by (simp_all add: text_of_def)

lemma chain_canonical:
  assumes "canonical (ks @ map fst P)" and "creationOrder this = order_of ks"
  shows "chain (calls P) this =
     Inr \<lparr>selector = selector this @ text_of P,
          creationOrder = creationOrder this @ order_of (map fst P)\<rparr>"
  using assms
proof (induction P arbitrary: this ks)
  case Nil
  then show ?case by simp
next
  case (Cons p P)
  obtain k v where p: "p = (k, v)" by (cases p)
  from Cons.prems(1) have all: "canonical ((ks @ [k]) @ map fst P)"
    by (simp add: p)
  then have one: "canonical (ks @ [k])"
    by (rule canonical_prefix)
  let ?next = "\<lparr>selector = selector this @ fragment k v,
                creationOrder = creationOrder this @ tag k\<rparr>"
  have step: "part k v this = Inr ?next"
    using one canonical_no_duplicate [OF one]
    by (simp add: part_on_recorded [OF Cons.prems(2)])
  have "creationOrder ?next = order_of (ks @ [k])"
    using Cons.prems(2) by simp
  from Cons.IH [OF all this] step show ?case
    by (simp add: p)
qed

lemma facade_unfold: "cssSelectorBuilder c h = on_ref c (length h) (h @ [constructor])"
proof (cases c)
  case (Part k v)
  then show ?thesis
    by (cases k)
      (simp_all add: cssSelectorBuilder_element_def cssSelectorBuilder_id_def
        cssSelectorBuilder_class_def cssSelectorBuilder_attr_def
        cssSelectorBuilder_pseudoClass_def cssSelectorBuilder_pseudoElement_def
        new_CssSelectorCreator_def)
next
  case (Combine a x b)
  then show ?thesis
    by (simp add: cssSelectorBuilder_combine_def new_CssSelectorCreator_def)
qed

lemma deref_update: "deref h r = Some x \<Longrightarrow> deref (h[r := y]) r = Some y"
  by (cases "r < length h") (simp_all add: deref_def)

lemma invoke_success:
  assumes "deref h r = Some obj" and "m obj = Inr obj1"
  shows "invoke m r h = Some (Inr r, h[r := obj1])"
  using assms by (simp add: invoke_def)

lemma heap_chain_parts:
  assumes "chain (calls P) obj = Inr obj1" and "deref h r = Some obj"
  shows "heap_chain (calls P) r h = Some (Inr r, h[r := obj1])"
  using assms
proof (induction P arbitrary: obj h)
  case Nil
  then have "h[r := obj1] = h"
    by (cases "r < length h") (auto simp: deref_def)
  with Nil show ?case by simp
next
  case (Cons p P)
  obtain k v where p: "p = (k, v)" by (cases p)
  from Cons.prems(1) obtain o1 where o1: "part k v obj = Inr o1"
    and rest: "chain (calls P) o1 = Inr obj1"
    by (auto simp: p split: sum.splits)
  have "on_ref (Part k v) r h = Some (Inr r, h[r := o1])"
    using invoke_success [of h r obj "part k v" o1] Cons.prems(2) o1 by simp
  moreover have "heap_chain (calls P) r (h[r := o1]) = Some (Inr r, h[r := o1, r := obj1])"
    using Cons.IH [OF rest deref_update [OF Cons.prems(2)]] .
  ultimately show ?case
    by (simp add: p)
qed

text \<open>
  Claim C1. For every call sequence \<open>element? id? class* attribute* pseudo-class*
  pseudo-element?\<close> (an optional value for element, id and pseudo-element, any number of
  values for class, attribute and pseudo-class, in that order): the chain of these calls
  on a new builder succeeds, and \<^verbatim>\<open>stringify()\<close> of the result is the concatenation, in
  call order, of the parts' fragments \<open>value\<close>, \<open>#value\<close>, \<open>.value\<close>, \<open>[value]\<close>,
  \<open>:value\<close>, \<open>::value\<close>. When the sequence is not empty, the same holds for the selector
  expression that makes the first call on the facade: it returns a new builder, in any
  store, with that text.
\<close>

theorem canonical_build_succeeds:
  "chain (calls (canonical_parts e i cs as ps pe)) constructor
     = Inr \<lparr>selector = text_of (canonical_parts e i cs as ps pe),
            creationOrder = order_of (map fst (canonical_parts e i cs as ps pe))\<rparr>
   \<and> stringify \<lparr>selector = text_of (canonical_parts e i cs as ps pe),
            creationOrder = order_of (map fst (canonical_parts e i cs as ps pe))\<rparr>
       = text_of (canonical_parts e i cs as ps pe)
   \<and> (canonical_parts e i cs as ps pe \<noteq> [] \<longrightarrow>
        build (calls (canonical_parts e i cs as ps pe)) h
          = Some (Inr (length h),
              h @ [\<lparr>selector = text_of (canonical_parts e i cs as ps pe),
                     creationOrder = order_of (map fst (canonical_parts e i cs as ps pe))\<rparr>]))"
proof -
  let ?P = "canonical_parts e i cs as ps pe"
  let ?b = "\<lparr>selector = text_of ?P, creationOrder = order_of (map fst ?P)\<rparr>"
  have "canonical ([] @ map fst ?P)"
    using canonical_parts_kinds by simp
  moreover have "creationOrder constructor = order_of []"
    by (simp add: constructor_def)
  ultimately have "chain (calls ?P) constructor =
     Inr \<lparr>selector = selector constructor @ text_of ?P,
          creationOrder = creationOrder constructor @ order_of (map fst ?P)\<rparr>"
    by (rule chain_canonical)
  then have pure: "chain (calls ?P) constructor = Inr ?b"
    by (simp add: constructor_def)
  have "build (calls ?P) h = Some (Inr (length h), h @ [?b])" if "?P \<noteq> []"
  proof -
    from that obtain k v Q where Q: "?P = (k, v) # Q"
      by (cases ?P) auto
    from pure obtain o1 where o1: "part k v constructor = Inr o1"
      and rest: "chain (calls Q) o1 = Inr ?b"
      by (auto simp: Q split: sum.splits)
    have "cssSelectorBuilder (Part k v) h = Some (Inr (length h), h @ [o1])"
      using o1 by (simp add: facade_unfold invoke_new)
    moreover have "heap_chain (calls Q) (length h) (h @ [o1])
        = Some (Inr (length h), (h @ [o1])[length h := ?b])"
      using heap_chain_parts [OF rest deref_new] .
    ultimately show ?thesis
      by (simp add: Q)
  qed
  with pure show ?thesis
    by (simp add: stringify_def)
qed

text \<open>The witness for C1: \<^verbatim>\<open>cssSelectorBuilder.id('main').class('container').class('editable')\<close>
  in the empty store.\<close>

theorem canonical_build_succeeds_witness:
  "canonical_parts None (Some ''main'') [''container'', ''editable''] [] [] None \<noteq> []
   \<and> build (calls (canonical_parts None (Some ''main'') [''container'', ''editable''] [] [] None)) []
       = Some (Inr 0, [\<lparr>selector = ''#main.container.editable'', creationOrder = ''idclassclass''\<rparr>])"
proof -
  let ?P = "canonical_parts None (Some ''main'') [''container'', ''editable''] [] [] None"
  have a: "?P \<noteq> []"
    by (simp add: canonical_parts_def)
  have t: "text_of ?P = ''#main.container.editable''"
    by code_simp
  have o: "order_of (map fst ?P) = ''idclassclass''"
    by code_simp
  have "build (calls ?P) []
      = Some (Inr (length ([]::heap)), [] @ [\<lparr>selector = text_of ?P, creationOrder = order_of (map fst ?P)\<rparr>])"
    using canonical_build_succeeds
      [of None "Some ''main''" "[''container'', ''editable'']" "[]" "[]" None "[]",
       THEN conjunct2, THEN conjunct2, THEN mp, OF a] .
  then have "build (calls ?P) []
      = Some (Inr 0, [\<lparr>selector = ''#main.container.editable'', creationOrder = ''idclassclass''\<rparr>])"
    unfolding t o by simp
  with a show ?thesis
    by blast
qed

section \<open>The facade\<close>

lemma invoke_frame:
  assumes "invoke m this h = Some (res, h1)"
  shows "length h1 = length h \<and> this < length h
       \<and> (\<forall>r. r \<noteq> this \<longrightarrow> deref h1 r = deref h r)
       \<and> (\<forall>x. res = Inr x \<longrightarrow> x = this)"
proof -
  from assms have lt: "this < length h"
    by (cases "this < length h") (simp_all add: invoke_def deref_def)
  then have d: "deref h this = Some (h ! this)"
    by (simp add: deref_def)
  show ?thesis
  proof (cases "m (h ! this)")
    case (Inl t)
    obtain e s where "t = (e, s)" by (cases t)
    with Inl assms d have "res = Inl e" "h1 = h[this := s]"
      by (simp_all add: invoke_def)
    with lt show ?thesis by (simp add: deref_def)
  next
    case (Inr s)
    with assms d have "res = Inr this" "h1 = h[this := s]"
      by (simp_all add: invoke_def)
    with lt show ?thesis by (simp add: deref_def)
  qed
qed

lemma on_ref_frame:
  assumes "on_ref c this h = Some (res, h1)"
  shows "length h1 = length h \<and> this < length h
       \<and> (\<forall>r. r \<noteq> this \<longrightarrow> deref h1 r = deref h r)
       \<and> (\<forall>x. res = Inr x \<longrightarrow> x = this)"
proof (cases c)
  case (Part k v)
  with assms have "invoke (part k v) this h = Some (res, h1)" by simp
  then show ?thesis by (rule invoke_frame)
next
  case (Combine r1 x r2)
  with assms obtain a b where "invoke (combine a x b) this h = Some (res, h1)"
    by (auto split: option.splits)
  then show ?thesis by (rule invoke_frame)
qed

lemma heap_after_frame:
  assumes "heap_after ops this h = Some h1"
  shows "length h1 = length h \<and> (\<forall>r. r \<noteq> this \<longrightarrow> deref h1 r = deref h r)"
  using assms
proof (induction ops arbitrary: h)
  case Nil
  then show ?case by simp
next
  case (Cons c ops)
  then obtain res h2 where s: "on_ref c this h = Some (res, h2)"
    and r: "heap_after ops this h2 = Some h1"
    by (auto split: option.splits)
  from on_ref_frame [OF s] Cons.IH [OF r] show ?case
    by simp
qed

lemma facade_frame:
  assumes "cssSelectorBuilder c h = Some (res, h1)"
  shows "length h1 = Suc (length h)
       \<and> (\<forall>r. r < length h \<longrightarrow> deref h1 r = deref h r)
       \<and> (\<forall>x. res = Inr x \<longrightarrow> x = length h)"
proof -
  from assms have s: "on_ref c (length h) (h @ [constructor]) = Some (res, h1)"
    by (simp add: facade_unfold)
  have "deref (h @ [constructor]) r = deref h r" if "r < length h" for r
    using that by (simp add: deref_def nth_append)
  with on_ref_frame [OF s] show ?thesis
    by simp
qed

lemma invoke_total:
  assumes "this < length h"
  shows "\<exists>res h1. invoke m this h = Some (res, h1)"
proof -
  from assms have "deref h this = Some (h ! this)"
    by (simp add: deref_def)
  then have "invoke m this h =
      Some (case m (h ! this) of
              Inl (thrown, obj1) \<Rightarrow> (Inl thrown, h[this := obj1])
            | Inr obj1 \<Rightarrow> (Inr this, h[this := obj1]))"
    by (simp add: invoke_def)
  then show ?thesis
    by (cases "case m (h ! this) of
              Inl (thrown, obj1) \<Rightarrow> (Inl thrown, h[this := obj1])
            | Inr obj1 \<Rightarrow> (Inr this, h[this := obj1])") simp
qed

lemma on_ref_total:
  assumes "this < length h" and "allocated c (length h)"
  shows "\<exists>res h1. on_ref c this h = Some (res, h1)"
proof (cases c)
  case (Part k v)
  with invoke_total [OF assms(1)] show ?thesis
    by simp
next
  case (Combine r1 x r2)
  with assms(2) have "deref h r1 = Some (h ! r1)" "deref h r2 = Some (h ! r2)"
    by (simp_all add: deref_def)
  with Combine invoke_total [OF assms(1)] show ?thesis
    by simp
qed

lemma allocated_mono: "allocated c n \<Longrightarrow> allocated c (Suc n)"
  by (cases c) simp_all

lemma facade_total:
  assumes "allocated c (length h)"
  shows "\<exists>res h1. cssSelectorBuilder c h = Some (res, h1)"
proof -
  have "length h < length (h @ [constructor])"
    by simp
  moreover have "allocated c (length (h @ [constructor]))"
    using assms by (simp add: allocated_mono)
  ultimately show ?thesis
    unfolding facade_unfold by (rule on_ref_total)
qed

lemma facade_part:
  "cssSelectorBuilder (Part k v) h =
     Some (case part k v constructor of
             Inl (thrown, obj) \<Rightarrow> (Inl thrown, h @ [obj])
           | Inr obj \<Rightarrow> (Inr (length h), h @ [obj]))"
proof -
  have "on_ref (Part k v) (length h) (h @ [constructor])
      = invoke (part k v) (length h) (h @ [constructor])"
    by simp
  then show ?thesis
    unfolding facade_unfold invoke_new .
qed

lemma facade_combine:
  assumes "deref h selector1 = Some x" and "deref h selector2 = Some y"
  shows "cssSelectorBuilder (Combine selector1 c selector2) h =
     Some (case combine x c y constructor of
             Inl (thrown, obj) \<Rightarrow> (Inl thrown, h @ [obj])
           | Inr obj \<Rightarrow> (Inr (length h), h @ [obj]))"
proof -
  have "on_ref (Combine selector1 c selector2) (length h) (h @ [constructor])
      = invoke (combine x c y) (length h) (h @ [constructor])"
    using assms by (simp add: deref_grow)
  then show ?thesis
    unfolding facade_unfold invoke_new .
qed

lemma perform_frame:
  assumes "perform s h = Some (res, h1)"
  shows "length h \<le> length h1
       \<and> (\<forall>b. b < length h \<and> \<not> on_builder b s \<longrightarrow> deref h1 b = deref h b)"
proof (cases s)
  case (Facade c)
  with assms have "cssSelectorBuilder c h = Some (res, h1)"
    by simp
  from facade_frame [OF this] show ?thesis
    by simp
next
  case (Method this c)
  with assms have "on_ref c this h = Some (res, h1)"
    by simp
  from on_ref_frame [OF this] Method show ?thesis
    by simp
qed

lemma run_frame:
  assumes "run steps h = Some h1"
  shows "length h \<le> length h1
       \<and> (\<forall>b. b < length h \<and> \<not> (\<exists>s\<in>set steps. on_builder b s) \<longrightarrow> deref h1 b = deref h b)"
  using assms
proof (induction steps arbitrary: h)
  case Nil
  then show ?case by simp
next
  case (Cons s steps)
  then obtain res h2 where p: "perform s h = Some (res, h2)" and r: "run steps h2 = Some h1"
    by (auto split: option.splits)
  note f = perform_frame [OF p]
  note g = Cons.IH [OF r]
  have "length h \<le> length h1"
    using f g by simp
  moreover have "deref h1 b = deref h b"
    if "b < length h \<and> \<not> (\<exists>t\<in>set (s # steps). on_builder b t)" for b
  proof -
    from that have "b < length h2" "\<not> on_builder b s" "\<not> (\<exists>t\<in>set steps. on_builder b t)"
      using f by auto
    with f g that show ?thesis by simp
  qed
  ultimately show ?case by blast
qed

lemma run_total:
  assumes "well_formed steps (length h)"
  shows "\<exists>h1. run steps h = Some h1"
  using assms
proof (induction steps arbitrary: h)
  case Nil
  then show ?case by simp
next
  case (Cons s steps)
  show ?case
  proof (cases s)
    case (Facade c)
    with Cons.prems have a: "allocated c (length h)" and w: "well_formed steps (Suc (length h))"
      by simp_all
    from facade_total [OF a] obtain res h2 where p: "cssSelectorBuilder c h = Some (res, h2)"
      by blast
    from facade_frame [OF p] w have "well_formed steps (length h2)"
      by simp
    from Cons.IH [OF this] p Facade show ?thesis
      by simp
  next
    case (Method this c)
    with Cons.prems have a: "this < length h" "allocated c (length h)"
      and w: "well_formed steps (length h)"
      by simp_all
    from on_ref_total [OF a] obtain res h2 where p: "on_ref c this h = Some (res, h2)"
      by blast
    from on_ref_frame [OF p] w have "well_formed steps (length h2)"
      by simp
    from Cons.IH [OF this] p Method show ?thesis
      by simp
  qed
qed

lemma deref_nth: "deref h1 b = deref h b \<Longrightarrow> b < length h \<Longrightarrow> h1 ! b = h ! b"
  by (cases "b < length h1") (simp_all add: deref_def)

text \<open>
  Claim C7. Every call on the facade is that call made on a newly constructed builder:
  for each of the six part methods, in any store, and for \<^verbatim>\<open>combine\<close> with operands that
  exist, the call allocates one object after all the existing ones, runs the method with
  the call's arguments on the new \<^verbatim>\<open>CssSelectorCreator\<close>, and returns the new reference
  (or throws what the method throws). The facade has no field, and nothing else is read
  or written. Any sequence of statements whose references exist (facade calls, and
  method calls on any builders) runs to its end, and leaves every builder on which it
  calls no method as it was, \<^verbatim>\<open>stringify()\<close> included. Two builders returned by two
  facade calls, whatever statements come between the two calls, are different objects,
  and the second call leaves the first builder as it was; so any calls on one of the
  two leave the other unchanged.
\<close>

theorem facade_builders_independent:
  "cssSelectorBuilder (Part k v) h =
      Some (case part k v constructor of
              Inl (thrown, obj) \<Rightarrow> (Inl thrown, h @ [obj])
            | Inr obj \<Rightarrow> (Inr (length h), h @ [obj]))
   \<and> (deref h selector1 = Some x \<and> deref h selector2 = Some y \<longrightarrow>
        cssSelectorBuilder (Combine selector1 c selector2) h =
          Some (case combine x c y constructor of
                  Inl (thrown, obj) \<Rightarrow> (Inl thrown, h @ [obj])
                | Inr obj \<Rightarrow> (Inr (length h), h @ [obj])))
   \<and> (well_formed steps (length h) \<longrightarrow>
        (\<exists>h1. run steps h = Some h1 \<and> length h \<le> length h1
           \<and> (\<forall>b. b < length h \<and> \<not> (\<exists>s\<in>set steps. on_builder b s) \<longrightarrow>
                 deref h1 b = deref h b \<and> stringify (h1 ! b) = stringify (h ! b))))
   \<and> (\<forall>h1 h2 h3 a b.
         cssSelectorBuilder c1 h = Some (Inr a, h1) \<and> run steps h1 = Some h2
         \<and> cssSelectorBuilder c2 h2 = Some (Inr b, h3) \<longrightarrow>
           a = length h \<and> b = length h2 \<and> a < b \<and> b < length h3
           \<and> deref h3 a = deref h2 a)"
proof -
  have 3: "\<exists>h1. run steps h = Some h1 \<and> length h \<le> length h1
           \<and> (\<forall>b. b < length h \<and> \<not> (\<exists>s\<in>set steps. on_builder b s) \<longrightarrow>
                 deref h1 b = deref h b \<and> stringify (h1 ! b) = stringify (h ! b))"
    if "well_formed steps (length h)"
  proof -
    from run_total [OF that] obtain h1 where r: "run steps h = Some h1"
      by blast
    note f = run_frame [OF r]
    have "deref h1 b = deref h b \<and> stringify (h1 ! b) = stringify (h ! b)"
      if "b < length h \<and> \<not> (\<exists>s\<in>set steps. on_builder b s)" for b
    proof -
      from f that have d: "deref h1 b = deref h b"
        by blast
      have "b < length h"
        using that by simp
      with d have "h1 ! b = h ! b"
        by (rule deref_nth)
      then have "stringify (h1 ! b) = stringify (h ! b)"
        by (rule arg_cong)
      with d show ?thesis by (rule conjI)
    qed
    then have "\<forall>b. b < length h \<and> \<not> (\<exists>s\<in>set steps. on_builder b s) \<longrightarrow>
                 deref h1 b = deref h b \<and> stringify (h1 ! b) = stringify (h ! b)"
      by (intro allI impI)
    moreover from f have "length h \<le> length h1"
      by (rule conjunct1)
    ultimately show ?thesis
      using r by (intro exI [of _ h1] conjI)
  qed
  have 4: "a = length h \<and> b = length h2 \<and> a < b \<and> b < length h3 \<and> deref h3 a = deref h2 a"
    if "cssSelectorBuilder c1 h = Some (Inr a, h1) \<and> run steps h1 = Some h2
         \<and> cssSelectorBuilder c2 h2 = Some (Inr b, h3)" for h1 h2 h3 a b
  proof -
    from that have p: "cssSelectorBuilder c1 h = Some (Inr a, h1)"
      and r: "run steps h1 = Some h2" and q: "cssSelectorBuilder c2 h2 = Some (Inr b, h3)"
      by simp_all
    note f1 = facade_frame [OF p]
    note f2 = facade_frame [OF q]
    note g = run_frame [OF r]
    have a: "a = length h"
      using f1 by blast
    have b: "b = length h2"
      using f2 by blast
    have l1: "length h1 = Suc (length h)"
      using f1 by (rule conjunct1)
    have "length h1 \<le> length h2"
      using g by (rule conjunct1)
    with l1 a b have lt: "a < b"
      by simp
    have "length h3 = Suc (length h2)"
      using f2 by (rule conjunct1)
    with b have lb: "b < length h3"
      by simp
    have keep: "\<forall>r. r < length h2 \<longrightarrow> deref h3 r = deref h2 r"
      using f2 by blast
    from lt b have "a < length h2"
      by simp
    with keep have d: "deref h3 a = deref h2 a"
      by blast
    from a b lt lb d show ?thesis
      by (intro conjI)
  qed
  have 2: "deref h selector1 = Some x \<and> deref h selector2 = Some y \<longrightarrow>
        cssSelectorBuilder (Combine selector1 c selector2) h =
          Some (case combine x c y constructor of
                  Inl (thrown, obj) \<Rightarrow> (Inl thrown, h @ [obj])
                | Inr obj \<Rightarrow> (Inr (length h), h @ [obj]))"
  proof
    assume "deref h selector1 = Some x \<and> deref h selector2 = Some y"
    then have "deref h selector1 = Some x" and "deref h selector2 = Some y"
      by simp_all
    then show "cssSelectorBuilder (Combine selector1 c selector2) h =
          Some (case combine x c y constructor of
                  Inl (thrown, obj) \<Rightarrow> (Inl thrown, h @ [obj])
                | Inr obj \<Rightarrow> (Inr (length h), h @ [obj]))"
      by (rule facade_combine)
  qed
  show ?thesis
  proof (intro conjI)
    show "cssSelectorBuilder (Part k v) h =
      Some (case part k v constructor of
              Inl (thrown, obj) \<Rightarrow> (Inl thrown, h @ [obj])
            | Inr obj \<Rightarrow> (Inr (length h), h @ [obj]))"
      by (rule facade_part)
    show "deref h selector1 = Some x \<and> deref h selector2 = Some y \<longrightarrow>
        cssSelectorBuilder (Combine selector1 c selector2) h =
          Some (case combine x c y constructor of
                  Inl (thrown, obj) \<Rightarrow> (Inl thrown, h @ [obj])
                | Inr obj \<Rightarrow> (Inr (length h), h @ [obj]))"
      by (rule 2)
    show "well_formed steps (length h) \<longrightarrow>
        (\<exists>h1. run steps h = Some h1 \<and> length h \<le> length h1
           \<and> (\<forall>b. b < length h \<and> \<not> (\<exists>s\<in>set steps. on_builder b s) \<longrightarrow>
                 deref h1 b = deref h b \<and> stringify (h1 ! b) = stringify (h ! b)))"
      using 3 by (rule impI)
    show "\<forall>h1 h2 h3 a b.
         cssSelectorBuilder c1 h = Some (Inr a, h1) \<and> run steps h1 = Some h2
         \<and> cssSelectorBuilder c2 h2 = Some (Inr b, h3) \<longrightarrow>
           a = length h \<and> b = length h2 \<and> a < b \<and> b < length h3
           \<and> deref h3 a = deref h2 a"
      using 4 by (intro allI impI)
  qed
qed

text \<open>The witness for C7, in a store that holds the builder of \<^verbatim>\<open>id('main')\<close> at reference
  0: the facade's \<^verbatim>\<open>combine(0, '+', 0)\<close>; the statements \<^verbatim>\<open>cssSelectorBuilder.element('a')\<close>,
  then \<^verbatim>\<open>id('z')\<close> and \<^verbatim>\<open>combine(0, '+', 0)\<close> on the builder at reference 1, none of which
  is a method call on builder 0; and the two facade calls \<^verbatim>\<open>class('x')\<close> and
  \<^verbatim>\<open>attr('href')\<close> with these statements between them.\<close>

theorem facade_builders_independent_witness:
  "deref [\<lparr>selector = ''#main'', creationOrder = ''id''\<rparr>] 0
     = Some \<lparr>selector = ''#main'', creationOrder = ''id''\<rparr>
   \<and> cssSelectorBuilder (Combine 0 ''+'' 0) [\<lparr>selector = ''#main'', creationOrder = ''id''\<rparr>]
     = Some (Inr 1, [\<lparr>selector = ''#main'', creationOrder = ''id''\<rparr>,
                     \<lparr>selector = ''#main + #main'', creationOrder = ''''\<rparr>])
   \<and> well_formed [Facade (Part Element ''a''), Method 1 (Part Id ''z''),
                  Method 1 (Combine 0 ''+'' 0)]
        (length [\<lparr>selector = ''#main'', creationOrder = ''id''\<rparr>])
   \<and> (0 < length [\<lparr>selector = ''#main'', creationOrder = ''id''\<rparr>]
        \<and> \<not> (\<exists>s\<in>set [Facade (Part Element ''a''), Method 1 (Part Id ''z''),
                        Method 1 (Combine 0 ''+'' 0)]. on_builder 0 s))
   \<and> run [Facade (Part Element ''a''), Method 1 (Part Id ''z''), Method 1 (Combine 0 ''+'' 0)]
        [\<lparr>selector = ''#main'', creationOrder = ''id''\<rparr>]
     = Some [\<lparr>selector = ''#main'', creationOrder = ''id''\<rparr>,
             \<lparr>selector = ''a#z#main + #main'', creationOrder = ''elementid''\<rparr>]
   \<and> deref [\<lparr>selector = ''#main'', creationOrder = ''id''\<rparr>,
            \<lparr>selector = ''a#z#main + #main'', creationOrder = ''elementid''\<rparr>] 0
     = deref [\<lparr>selector = ''#main'', creationOrder = ''id''\<rparr>] 0
   \<and> cssSelectorBuilder (Part Class ''x'') [\<lparr>selector = ''#main'', creationOrder = ''id''\<rparr>]
     = Some (Inr 1, [\<lparr>selector = ''#main'', creationOrder = ''id''\<rparr>,
                     \<lparr>selector = ''.x'', creationOrder = ''class''\<rparr>])
   \<and> run [Facade (Part Element ''a''), Method 1 (Part Id ''z''), Method 1 (Combine 0 ''+'' 0)]
        [\<lparr>selector = ''#main'', creationOrder = ''id''\<rparr>,
         \<lparr>selector = ''.x'', creationOrder = ''class''\<rparr>]
     = Some [\<lparr>selector = ''#main'', creationOrder = ''id''\<rparr>,
             \<lparr>selector = ''.x#main + #main'', creationOrder = ''classid''\<rparr>,
             \<lparr>selector = ''a'', creationOrder = ''element''\<rparr>]
   \<and> cssSelectorBuilder (Part Attr ''href'')
        [\<lparr>selector = ''#main'', creationOrder = ''id''\<rparr>,
         \<lparr>selector = ''.x#main + #main'', creationOrder = ''classid''\<rparr>,
         \<lparr>selector = ''a'', creationOrder = ''element''\<rparr>]
     = Some (Inr 3, [\<lparr>selector = ''#main'', creationOrder = ''id''\<rparr>,
                     \<lparr>selector = ''.x#main + #main'', creationOrder = ''classid''\<rparr>,
                     \<lparr>selector = ''a'', creationOrder = ''element''\<rparr>,
                     \<lparr>selector = ''[href]'', creationOrder = ''attr''\<rparr>])
   \<and> (1::nat) < 3
   \<and> deref [\<lparr>selector = ''#main'', creationOrder = ''id''\<rparr>,
            \<lparr>selector = ''.x#main + #main'', creationOrder = ''classid''\<rparr>,
            \<lparr>selector = ''a'', creationOrder = ''element''\<rparr>,
            \<lparr>selector = ''[href]'', creationOrder = ''attr''\<rparr>] 1
     = deref [\<lparr>selector = ''#main'', creationOrder = ''id''\<rparr>,
              \<lparr>selector = ''.x#main + #main'', creationOrder = ''classid''\<rparr>,
              \<lparr>selector = ''a'', creationOrder = ''element''\<rparr>] 1"
proof -
  let ?A = "\<lparr>selector = ''#main'', creationOrder = ''id''\<rparr>"
  let ?B = "\<lparr>selector = ''.x'', creationOrder = ''class''\<rparr>"
  let ?B2 = "\<lparr>selector = ''.x#main + #main'', creationOrder = ''classid''\<rparr>"
  let ?C = "\<lparr>selector = ''a'', creationOrder = ''element''\<rparr>"
  let ?D = "\<lparr>selector = ''[href]'', creationOrder = ''attr''\<rparr>"
  let ?X = "\<lparr>selector = ''a#z#main + #main'', creationOrder = ''elementid''\<rparr>"
  let ?steps = "[Facade (Part Element ''a''), Method 1 (Part Id ''z''),
                 Method 1 (Combine 0 ''+'' 0)]"
  have d: "deref [?A] 0 = Some ?A"
    by code_simp
  have w: "well_formed ?steps (length [?A])"
    by code_simp
  have nb: "0 < length [?A] \<and> \<not> (\<exists>s\<in>set ?steps. on_builder 0 s)"
    by code_simp
  have rn0: "run ?steps [?A] = Some [?A, ?X]"
    by code_simp
  have f1: "cssSelectorBuilder (Part Class ''x'') [?A] = Some (Inr 1, [?A, ?B])"
    by code_simp
  have rn: "run ?steps [?A, ?B] = Some [?A, ?B2, ?C]"
    by code_simp
  have f2: "cssSelectorBuilder (Part Attr ''href'') [?A, ?B2, ?C] = Some (Inr 3, [?A, ?B2, ?C, ?D])"
    by code_simp
  have ev: "Some (case combine ?A ''+'' ?A constructor of
                  Inl (thrown, obj) \<Rightarrow> (Inl thrown, [?A] @ [obj])
                | Inr obj \<Rightarrow> (Inr (length [?A]), [?A] @ [obj]))
      = Some (Inr 1, [?A, \<lparr>selector = ''#main + #main'', creationOrder = ''''\<rparr>])"
    by code_simp
  note r = facade_builders_independent
    [where h = "[?A]" and ?selector1.0 = 0 and x = ?A and ?selector2.0 = 0 and y = ?A
       and c = "''+''" and steps = ?steps and ?c1.0 = "Part Class ''x''"
       and ?c2.0 = "Part Attr ''href''" and k = Class and v = "''x''"]
  from r d have "cssSelectorBuilder (Combine 0 ''+'' 0) [?A] =
          Some (case combine ?A ''+'' ?A constructor of
                  Inl (thrown, obj) \<Rightarrow> (Inl thrown, [?A] @ [obj])
                | Inr obj \<Rightarrow> (Inr (length [?A]), [?A] @ [obj]))"
    by blast
  then have c2: "cssSelectorBuilder (Combine 0 ''+'' 0) [?A]
      = Some (Inr 1, [?A, \<lparr>selector = ''#main + #main'', creationOrder = ''''\<rparr>])"
    unfolding ev .
  from r w have "\<exists>h1. run ?steps [?A] = Some h1 \<and> length [?A] \<le> length h1
           \<and> (\<forall>b. b < length [?A] \<and> \<not> (\<exists>s\<in>set ?steps. on_builder b s) \<longrightarrow>
                 deref h1 b = deref [?A] b \<and> stringify (h1 ! b) = stringify ([?A] ! b))"
    by blast
  then obtain h1 where "run ?steps [?A] = Some h1"
    and "\<forall>b. b < length [?A] \<and> \<not> (\<exists>s\<in>set ?steps. on_builder b s) \<longrightarrow>
                 deref h1 b = deref [?A] b \<and> stringify (h1 ! b) = stringify ([?A] ! b)"
    by blast
  with rn0 nb have iso: "deref [?A, ?X] 0 = deref [?A] 0"
    by auto
  from r f1 rn f2 have "(1::nat) < 3 \<and> deref [?A, ?B2, ?C, ?D] 1 = deref [?A, ?B2, ?C] 1"
    by blast
  then have lt: "(1::nat) < 3" and keep: "deref [?A, ?B2, ?C, ?D] 1 = deref [?A, ?B2, ?C] 1"
    by simp_all
  from nb have nb1: "0 < length [?A]"
    and nb2: "\<not> (\<exists>s\<in>set ?steps. on_builder 0 s)"
    by (rule conjunct1, rule conjunct2)
  from d c2 w nb1 nb2 rn0 iso f1 rn f2 lt keep show ?thesis
    by (intro conjI)
qed


section \<open>The round trip through getJSON and fromJSON\<close>

lemma stringify_parse: "JSON_stringify (JSON_parse t) = t"
proof (induction t)
  case (TArray ts)
  then have "map (JSON_stringify \<circ> JSON_parse) ts = ts"
    by (simp add: map_idI)
  then show ?case by simp
next
  case (TObject kts)
  have "map_prod id JSON_stringify (map_prod id JSON_parse kt) = kt" if "kt \<in> set kts" for kt
  proof -
    obtain k t where kt: "kt = (k, t)" by (cases kt)
    with that TObject have "JSON_stringify (JSON_parse t) = t"
      by fastforce
    with kt show ?thesis by simp
  qed
  then have "map (map_prod id JSON_stringify \<circ> map_prod id JSON_parse) kts = kts"
    by (simp add: map_idI)
  then show ?case by simp
qed simp_all

lemma stringify_setPrototypeOf:
  "Object_setPrototypeOf v p = Inr r \<Longrightarrow> JSON_stringify r = JSON_stringify v"
  by (cases v) auto

lemma properties_setPrototypeOf:
  "Object_setPrototypeOf v p = Inr r \<Longrightarrow> own_properties r = own_properties v"
  by (cases v) auto

lemma properties_from_text:
  "is_object v \<Longrightarrow> is_object w \<Longrightarrow> JSON_stringify w = JSON_stringify v
     \<Longrightarrow> own_properties w = own_properties v"
  by (cases v; cases w) simp_all

lemma properties_parse:
  assumes "is_object v"
  shows "own_properties (JSON_parse (JSON_stringify v)) = own_properties v"
proof -
  have "is_object (JSON_parse (JSON_stringify v))"
    using assms by (cases v) simp_all
  with assms show ?thesis
    by (rule properties_from_text) (rule stringify_parse)
qed

text \<open>
  Claim C8, as amended. For every JSON-serializable object or array \<open>v\<close> (not \<^verbatim>\<open>null\<close>, a
  boolean, a number or a string) and every prototype \<open>p\<close>, \<^verbatim>\<open>fromJSON(p, getJSON(v))\<close>
  returns a value whose prototype is exactly \<open>p\<close> and whose own data properties are those
  of \<open>v\<close>, so that its JSON text is that of \<open>v\<close>.
\<close>

theorem fromJSON_getJSON:
  assumes "is_object v"
  shows "\<exists>r. fromJSON p (getJSON v) = Inr r
           \<and> prototype_of r = Some p
           \<and> own_properties r = own_properties v
           \<and> getJSON r = getJSON v"
proof -
  from assms obtain r where r: "Object_setPrototypeOf (JSON_parse (JSON_stringify v)) p = Inr r"
    and proto: "prototype_of r = Some p"
    by (cases v) auto
  from properties_setPrototypeOf [OF r] properties_parse [OF assms]
  have "own_properties r = own_properties v"
    by simp
  moreover from stringify_setPrototypeOf [OF r] have "getJSON r = getJSON v"
    by (simp add: getJSON_def stringify_parse)
  moreover from r have "fromJSON p (getJSON v) = Inr r"
    by (simp add: fromJSON_def getJSON_def)
  ultimately show ?thesis
    using proto by blast
qed

text \<open>The witness for C8: an object with a number and an array of strings, and a
  prototype of its own, read back with another prototype.\<close>

theorem fromJSON_getJSON_witness:
  "is_object (JObject (Proto 7) [(''radius'', JNum 10), (''tags'', JArray Array_prototype [JStr ''a''])])
   \<and> fromJSON (Proto 1)
        (getJSON (JObject (Proto 7) [(''radius'', JNum 10), (''tags'', JArray Array_prototype [JStr ''a''])]))
       = Inr (JObject (Proto 1) [(''radius'', JNum 10), (''tags'', JArray Array_prototype [JStr ''a''])])
   \<and> (\<exists>r. fromJSON (Proto 1)
        (getJSON (JObject (Proto 7) [(''radius'', JNum 10), (''tags'', JArray Array_prototype [JStr ''a''])]))
          = Inr r \<and> prototype_of r = Some (Proto 1))"
proof -
  let ?v = "JObject (Proto 7) [(''radius'', JNum 10), (''tags'', JArray Array_prototype [JStr ''a''])]"
  have a: "is_object ?v"
    by simp
  have b: "fromJSON (Proto 1) (getJSON ?v)
       = Inr (JObject (Proto 1) [(''radius'', JNum 10), (''tags'', JArray Array_prototype [JStr ''a''])])"
    by code_simp
  from fromJSON_getJSON [OF a, of "Proto 1"] have
    "\<exists>r. fromJSON (Proto 1) (getJSON ?v) = Inr r \<and> prototype_of r = Some (Proto 1)"
    by blast
  with a b show ?thesis
    by blast
qed

text \<open>Claim C8 as stated fails at \<open>v = null\<close>, where \<^verbatim>\<open>Object.setPrototypeOf\<close> throws a
  \<^verbatim>\<open>TypeError\<close>, and at the number 5, which comes back as the number 5, whose prototype is
  \<^verbatim>\<open>Number.prototype\<close> and not \<open>p\<close>.\<close>

theorem fromJSON_getJSON_counterexample:
  "fromJSON (Proto 1) (getJSON JNull) = Inl TypeError
   \<and> fromJSON (Proto 1) (getJSON (JNum 5)) = Inr (JNum 5)
   \<and> prototype_of (JNum 5) = Some Number_prototype
   \<and> Number_prototype \<noteq> Proto 1"
  by code_simp


section \<open>The scenarios of the specification\<close>

lemma scenario_1:
  "chain [Part Id ''main'', Part Class ''container'', Part Class ''editable''] constructor
     = Inr \<lparr>selector = ''#main.container.editable'', creationOrder = ''idclassclass''\<rparr>"
  by code_simp

lemma scenario_3:
  "chain [Part Id ''main'', Part Id ''other''] constructor
     = Inl (noDuplicateSelectors, \<lparr>selector = ''#main'', creationOrder = ''id''\<rparr>)"
  by code_simp

lemma scenario_4:
  "chain [Part Class ''x'', Part Element ''a''] constructor
     = Inl (selectorsOrderError, \<lparr>selector = ''.x'', creationOrder = ''classelement''\<rparr>)"
  by code_simp

lemma scenario_5:
  "combine \<lparr>selector = ''div'', creationOrder = ''element''\<rparr> ''*''
           \<lparr>selector = ''span'', creationOrder = ''element''\<rparr> constructor
     = Inl (combinatorError ([CHR 0x22, CHR '' '', CHR 0x22] @ '', +, ~, >''), constructor)"
  by code_simp

lemma scenario_6:
  "build [Combine 1 ''~'' 2]
         [\<lparr>selector = ''div#main'', creationOrder = ''elementid''\<rparr>,
          \<lparr>selector = ''table#data'', creationOrder = ''elementid''\<rparr>,
          \<lparr>selector = ''tr'', creationOrder = ''element''\<rparr>] =
     Some (Inr 3, [\<lparr>selector = ''div#main'', creationOrder = ''elementid''\<rparr>,
                   \<lparr>selector = ''table#data'', creationOrder = ''elementid''\<rparr>,
                   \<lparr>selector = ''tr'', creationOrder = ''element''\<rparr>,
                   \<lparr>selector = ''table#data ~ tr'', creationOrder = []\<rparr>])
   \<and> build [Combine 0 ''+'' 3]
         [\<lparr>selector = ''div#main'', creationOrder = ''elementid''\<rparr>,
          \<lparr>selector = ''table#data'', creationOrder = ''elementid''\<rparr>,
          \<lparr>selector = ''tr'', creationOrder = ''element''\<rparr>,
          \<lparr>selector = ''table#data ~ tr'', creationOrder = []\<rparr>] =
     Some (Inr 4, [\<lparr>selector = ''div#main'', creationOrder = ''elementid''\<rparr>,
                   \<lparr>selector = ''table#data'', creationOrder = ''elementid''\<rparr>,
                   \<lparr>selector = ''tr'', creationOrder = ''element''\<rparr>,
                   \<lparr>selector = ''table#data ~ tr'', creationOrder = []\<rparr>,
                   \<lparr>selector = ''div#main + table#data ~ tr'', creationOrder = []\<rparr>])"
  by code_simp

end
